theory Spec2Isabelle
  imports Main "HOL-Library.AList" "HOL-Library.Sublist"
begin

section \<open>Values, errors and dictionaries\<close>

text \<open>
  Attribute values and vertex names are Python objects. The model keeps the three kinds
  the constructor and the selectors handle without further structure: \<open>None\<close>,
  integers and strings.
\<close>

datatype pyval = PyNone | PyInt int | PyStr string

text \<open>
  Exceptions are values. \<open>ValueError\<close> carries the message the source raises it with.
\<close>

datatype error =
    KeyError
  | IndexError
  | TypeError
  | AttributeError
  | ValueError string

definition bind :: "error + 'a \<Rightarrow> ('a \<Rightarrow> error + 'b) \<Rightarrow> error + 'b" where
  "bind m f = (case m of Inl e \<Rightarrow> Inl e | Inr x \<Rightarrow> f x)"

text \<open>
  A dict is an association list in iteration order; a key occurs once in a well-formed
  dict (\<open>is_dict\<close>). Subscripting raises \<open>KeyError\<close> on a missing key.

  The keys of a record, and the names under which attributes are stored, are strings or
  integers (\<open>pydict\<close>); the keyword arguments of a call and the operator table are
  keyed by strings (\<open>kwdict\<close>).
\<close>

datatype pykey = KStr string | KInt int

type_synonym 'a pydict = "(pykey \<times> 'a) list"

type_synonym 'a kwdict = "(string \<times> 'a) list"

definition is_dict :: "('k \<times> 'a) list \<Rightarrow> bool" where
  "is_dict d = distinct (map fst d)"

definition getitem :: "('k \<times> 'a) list \<Rightarrow> 'k \<Rightarrow> error + 'a" where
  "getitem d k = (case map_of d k of None \<Rightarrow> Inl KeyError | Some v \<Rightarrow> Inr v)"

section \<open>The keyword grammar of \<open>select\<close>\<close>

text \<open>
  The operator table of \<open>VertexSeq.select\<close> and \<open>EdgeSeq.select\<close> (the same dict
  literal in both methods).
\<close>

datatype oper = OpLt | OpGt | OpLe | OpGe | OpEq | OpNe | OpIn | OpNotIn

definition operators :: "oper kwdict" where
  "operators =
     [(''lt'', OpLt), (''gt'', OpGt), (''le'', OpLe), (''ge'', OpGe),
      (''eq'', OpEq), (''ne'', OpNe), (''in'', OpIn), (''notin'', OpNotIn)]"

text \<open>
  \<open>str.rindex\<close>: the highest index at which the character occurs, \<open>ValueError\<close> when
  it does not occur.
\<close>

fun rindex_from :: "nat \<Rightarrow> string \<Rightarrow> char \<Rightarrow> nat option" where
  "rindex_from i [] c = None"
| "rindex_from i (x # xs) c =
     (case rindex_from (Suc i) xs c of
        Some j \<Rightarrow> Some j
      | None \<Rightarrow> (if x = c then Some i else None))"

definition rindex :: "string \<Rightarrow> char \<Rightarrow> error + nat" where
  "rindex s c =
     (case rindex_from 0 s c of
        None \<Rightarrow> Inl (ValueError ''substring not found'')
      | Some j \<Rightarrow> Inr j)"

text \<open>
  The first lines of the loop body over \<open>kwds.iteritems()\<close>, the same text in both
  \<open>select\<close> methods:
  \<^verbatim>\<open>
  if "_" not in keyword or keyword.rindex("_") == 0: keyword = keyword+"_eq"
  pos = keyword.rindex("_")
  attr, op = keyword[0:pos], keyword[pos+1:]
  try:
      func = operators[op]
  except KeyError:
      attr = "%s_%s" % (attr,op)
      func = operators["eq"]
  \<close>
  The result is the triple \<open>(attr, op, func)\<close>; \<open>op\<close> keeps the trailing token
  also when it is no operator, as the variable does in the source.
\<close>

definition split_keyword :: "string \<Rightarrow> error + (string \<times> string \<times> oper)" where
  "split_keyword keyword0 =
     bind (if CHR ''_'' \<notin> set keyword0 then Inr (keyword0 @ ''_eq'')
           else bind (rindex keyword0 (CHR ''_''))
                  (\<lambda>p. Inr (if p = 0 then keyword0 @ ''_eq'' else keyword0)))
     (\<lambda>keyword.
        bind (rindex keyword (CHR ''_''))
        (\<lambda>pos.
           let attr = take pos keyword; op = drop (pos + 1) keyword in
           (case getitem operators op of
              Inr func \<Rightarrow> Inr (attr, op, func)
            | Inl e \<Rightarrow> bind (getitem operators ''eq'')
                        (\<lambda>func. Inr (attr @ ''_'' @ op, op, func)))))"

text \<open>
  The grammar in the words of the specification: the operator is the token after the
  final underscore when that token names one of the eight operators and the final
  underscore is not the leading reserved marker; otherwise the operator is \<open>eq\<close> and
  the whole keyword is the attribute.
\<close>

definition trailing_token :: "string \<Rightarrow> string" where
  "trailing_token keyword = rev (takeWhile (\<lambda>x. x \<noteq> CHR ''_'') (rev keyword))"

text \<open>
  The operator token of a keyword: the token after the final underscore when that
  underscore is not the leading one, and \<open>eq\<close> otherwise.
\<close>

definition keyword_token :: "string \<Rightarrow> string" where
  "keyword_token keyword =
     (let tok = trailing_token keyword;
          stem = take (length keyword - length tok - 1) keyword in
      if CHR ''_'' \<in> set keyword \<and> stem \<noteq> [] then tok else ''eq'')"

text \<open>
  The eight operators of the specification, by name: \<open>eq\<close>, \<open>ne\<close>, \<open>lt\<close>,
  \<open>gt\<close>, \<open>le\<close>, \<open>ge\<close>, \<open>in\<close> and \<open>notin\<close>.
\<close>

definition known_operator :: "string \<Rightarrow> oper option" where
  "known_operator tok =
     (if tok = ''eq'' then Some OpEq
      else if tok = ''ne'' then Some OpNe
      else if tok = ''lt'' then Some OpLt
      else if tok = ''gt'' then Some OpGt
      else if tok = ''le'' then Some OpLe
      else if tok = ''ge'' then Some OpGe
      else if tok = ''in'' then Some OpIn
      else if tok = ''notin'' then Some OpNotIn
      else None)"

definition keyword_spec :: "string \<Rightarrow> string \<times> oper" where
  "keyword_spec keyword =
     (let tok = trailing_token keyword;
          stem = take (length keyword - length tok - 1) keyword in
      if CHR ''_'' \<in> set keyword \<and> stem \<noteq> [] then
        (case known_operator tok of
           Some f \<Rightarrow> (stem, f)
         | None \<Rightarrow> (keyword, OpEq))
      else (keyword, OpEq))"

section \<open>Arguments and Python's operators\<close>

text \<open>
  The right-hand side of a keyword predicate is a value, a list of values, a vertex
  sequence (given by its absolute indices) or a tuple of lists and vertex sequences, as
  in \<^verbatim>\<open>_between = ([2, 3, 4, 7], [8, 9])\<close>.
\<close>

datatype coll = Items "pyval list" | VertexSeqArg "nat list"

datatype pyarg = Scalar pyval | Coll coll | Groups "coll list"

text \<open>
  Python 2 orders any two objects: \<open>None\<close> is below everything, then the numbers,
  then the other objects by the name of their type (\<open>VertexSeq\<close>, \<open>list\<close>,
  \<open>str\<close>, \<open>tuple\<close>). Integers are ordered by value and strings by character code.
\<close>

fun str_cmp :: "string \<Rightarrow> string \<Rightarrow> int" where
  "str_cmp [] [] = 0"
| "str_cmp [] (y # ys) = -1"
| "str_cmp (x # xs) [] = 1"
| "str_cmp (x # xs) (y # ys) =
     (if (of_char x :: nat) < of_char y then -1
      else if (of_char y :: nat) < of_char x then 1
      else str_cmp xs ys)"

fun type_rank :: "pyarg \<Rightarrow> nat" where
  "type_rank (Scalar PyNone) = 0"
| "type_rank (Scalar (PyInt i)) = 1"
| "type_rank (Coll (VertexSeqArg is)) = 2"
| "type_rank (Coll (Items xs)) = 3"
| "type_rank (Scalar (PyStr s)) = 4"
| "type_rank (Groups cs) = 5"

fun py_cmp :: "pyval \<Rightarrow> pyarg \<Rightarrow> int" where
  "py_cmp (PyInt i) (Scalar (PyInt j)) = (if i < j then -1 else if j < i then 1 else 0)"
| "py_cmp (PyStr s) (Scalar (PyStr t)) = str_cmp s t"
| "py_cmp v b =
     (if type_rank (Scalar v) < type_rank b then -1
      else if type_rank b < type_rank (Scalar v) then 1 else 0)"

text \<open>\<open>t in s\<close> for two strings is the substring test.\<close>

fun contains :: "string \<Rightarrow> string \<Rightarrow> bool" where
  "contains [] t = (t = [])"
| "contains (x # xs) t = (prefix t (x # xs) \<or> contains xs t)"

text \<open>
  \<open>a in b\<close>. Iterating a vertex sequence yields vertex objects and iterating a tuple
  of lists yields lists; neither is ever equal to \<open>None\<close>, an integer or a string.
  \<open>None\<close> and integers are not iterable.
\<close>

fun py_in :: "pyval \<Rightarrow> pyarg \<Rightarrow> error + bool" where
  "py_in a (Coll (Items xs)) = Inr (a \<in> set xs)"
| "py_in a (Coll (VertexSeqArg is)) = Inr False"
| "py_in a (Groups cs) = Inr False"
| "py_in (PyStr t) (Scalar (PyStr s)) = Inr (contains s t)"
| "py_in a (Scalar b) = Inl TypeError"

text \<open>The functions stored in the table \<open>operators\<close>, applied as \<open>func(v, value)\<close>.\<close>

fun apply_oper :: "oper \<Rightarrow> pyval \<Rightarrow> pyarg \<Rightarrow> error + bool" where
  "apply_oper OpLt v b = Inr (py_cmp v b < 0)"
| "apply_oper OpGt v b = Inr (py_cmp v b > 0)"
| "apply_oper OpLe v b = Inr (py_cmp v b \<le> 0)"
| "apply_oper OpGe v b = Inr (py_cmp v b \<ge> 0)"
| "apply_oper OpEq v b = Inr (b = Scalar v)"
| "apply_oper OpNe v b = Inr (b \<noteq> Scalar v)"
| "apply_oper OpIn v b = py_in v b"
| "apply_oper OpNotIn v b = bind (py_in v b) (\<lambda>r. Inr (\<not> r))"

text \<open>
  \<^verbatim>\<open>[i for i, v in enumerate(values) if func(v, value)]\<close>, with the counter of
  \<open>enumerate\<close> as the first argument.
\<close>

fun filter_idxs :: "nat \<Rightarrow> oper \<Rightarrow> pyval list \<Rightarrow> pyarg \<Rightarrow> error + nat list" where
  "filter_idxs i func [] value = Inr []"
| "filter_idxs i func (v # values) value =
     bind (apply_oper func v value)
       (\<lambda>b. bind (filter_idxs (Suc i) func values value)
          (\<lambda>rest. Inr (if b then i # rest else rest)))"

text \<open>
  \<open>_ensure_set\<close> of \<open>EdgeSeq.select\<close>:
  \<^verbatim>\<open>
  def _ensure_set(value):
      if isinstance(value, VertexSeq):
          value = set(v.index for v in value)
      else:
          value = set(value)
      return value
  \<close>
  The set is given by a list of its members. \<open>set\<close> of a string is the set of its
  characters; \<open>set\<close> raises \<open>TypeError\<close> on a value that is not iterable and on
  a member that is a list. A vertex sequence that is a member of a tuple is hashable,
  and equal to no value.
\<close>

fun ensure_set :: "pyarg \<Rightarrow> error + pyval list" where
  "ensure_set (Coll (VertexSeqArg is)) = Inr (map (\<lambda>i. PyInt (int i)) is)"
| "ensure_set (Coll (Items xs)) = Inr xs"
| "ensure_set (Scalar (PyStr s)) = Inr (map (\<lambda>c. PyStr [c]) s)"
| "ensure_set (Scalar v) = Inl TypeError"
| "ensure_set (Groups cs) =
     (if \<exists>c \<in> set cs. case c of Items xs \<Rightarrow> True | VertexSeqArg is \<Rightarrow> False
      then Inl TypeError else Inr [])"

section \<open>Graphs and entity sequences\<close>

record graph =
  vcount :: nat
  directed :: bool
  get_edgelist :: "(nat \<times> nat) list"
  gattrs :: "pyval pydict"
  vattrs :: "pyval list pydict"
  eattrs :: "pyval list pydict"

text \<open>
  A vertex or edge sequence is a graph together with the ordered list of absolute
  indices it holds; the model passes the two separately.
\<close>

fun mapM :: "('a \<Rightarrow> error + 'b) \<Rightarrow> 'a list \<Rightarrow> error + 'b list" where
  "mapM f [] = Inr []"
| "mapM f (x # xs) = bind (f x) (\<lambda>y. bind (mapM f xs) (\<lambda>ys. Inr (y # ys)))"

text \<open>
  Modelled from the spec: the attribute read \<open>seq[name]\<close> of the extension module's
  sequence types, which is not among the sources. It "returns values for exactly the
  sequence's entities, in sequence order"; an unknown attribute name is a lookup error.
\<close>

definition seq_getitem :: "pyval list pydict \<Rightarrow> nat list \<Rightarrow> pykey \<Rightarrow> error + pyval list" where
  "seq_getitem cols idxs name =
     bind (getitem cols name)
       (\<lambda>col. mapM (\<lambda>i. if i < length col then Inr (col ! i) else Inl IndexError) idxs)"

text \<open>
  Modelled from the spec: \<open>select\<close> of the extension module's sequence types, which
  is not among the sources, on its positional arguments. No argument keeps the
  sequence; \<open>None\<close> alone gives the empty sequence; a callable keeps the entities it
  is truthy on; integers, bare or in an iterable, are relative indices into the current
  sequence, and an index out of range is a lookup error.
\<close>

datatype posargs = NoArgs | ArgNone | ArgCallable "nat \<Rightarrow> bool" | ArgIndices "nat list"

fun core_select :: "nat list \<Rightarrow> posargs \<Rightarrow> error + nat list" where
  "core_select idxs NoArgs = Inr idxs"
| "core_select idxs ArgNone = Inr []"
| "core_select idxs (ArgCallable f) = Inr (filter f idxs)"
| "core_select idxs (ArgIndices rel) =
     mapM (\<lambda>i. if i < length idxs then Inr (idxs ! i) else Inl IndexError) rel"

text \<open>
  The methods of the graph that a predicate on \<open>_name\<close> calls through
  \<open>getattr(vs.graph, attr[1:])(vs)\<close> belong to the extension module; they are a
  parameter of the model, a table from names to functions of the graph and the sequence.
  A name that is not in the table raises \<open>AttributeError\<close>.
\<close>

type_synonym methods = "string \<Rightarrow> (graph \<Rightarrow> nat list \<Rightarrow> error + pyval list) option"

definition call_method :: "methods \<Rightarrow> graph \<Rightarrow> string \<Rightarrow> nat list \<Rightarrow> error + pyval list" where
  "call_method meths g name seq =
     (case meths name of None \<Rightarrow> Inl AttributeError | Some m \<Rightarrow> m g seq)"

section \<open>\<open>VertexSeq.select\<close>\<close>

text \<open>
  One round of the loop over \<open>kwds.iteritems()\<close>:
  \<^verbatim>\<open>
  if attr[0] == '_':
      values = getattr(vs.graph, attr[1:])(vs)
  else:
      values = vs[attr]
  filtered_idxs=[i for i, v in enumerate(values) if func(v, value)]
  vs = vs.select(filtered_idxs)
  \<close>
  \<open>attr[0]\<close> raises \<open>IndexError\<close> on the empty string.
\<close>

definition vs_select_step ::
  "methods \<Rightarrow> graph \<Rightarrow> nat list \<Rightarrow> string \<times> pyarg \<Rightarrow> error + nat list" where
  "vs_select_step meths g vs kv =
     (case kv of (keyword, value) \<Rightarrow>
      bind (split_keyword keyword) (\<lambda>(attr, op, func).
        bind (if attr = [] then Inl IndexError
              else if hd attr = CHR ''_'' then call_method meths g (tl attr) vs
              else seq_getitem (vattrs g) vs (KStr attr))
          (\<lambda>values.
             bind (filter_idxs 0 func values value)
               (\<lambda>filtered_idxs. core_select vs (ArgIndices filtered_idxs)))))"

fun vs_select_kwds ::
  "methods \<Rightarrow> graph \<Rightarrow> nat list \<Rightarrow> pyarg kwdict \<Rightarrow> error + nat list" where
  "vs_select_kwds meths g vs [] = Inr vs"
| "vs_select_kwds meths g vs (kv # kwds) =
     bind (vs_select_step meths g vs kv) (\<lambda>vs'. vs_select_kwds meths g vs' kwds)"

definition VertexSeq_select ::
  "methods \<Rightarrow> graph \<Rightarrow> nat list \<Rightarrow> posargs \<Rightarrow> pyarg kwdict \<Rightarrow> error + nat list" where
  "VertexSeq_select meths g self args kwds =
     bind (core_select self args) (\<lambda>vs. vs_select_kwds meths g vs kwds)"

section \<open>\<open>EdgeSeq.select\<close>\<close>

text \<open>The endpoints of the edge with absolute index \<open>i\<close>, as \<open>e.source\<close> and \<open>e.target\<close>.\<close>

definition edge_source :: "graph \<Rightarrow> nat \<Rightarrow> error + pyval" where
  "edge_source g i =
     (if i < length (get_edgelist g) then Inr (PyInt (int (fst (get_edgelist g ! i))))
      else Inl IndexError)"

definition edge_target :: "graph \<Rightarrow> nat \<Rightarrow> error + pyval" where
  "edge_target g i =
     (if i < length (get_edgelist g) then Inr (PyInt (int (snd (get_edgelist g ! i))))
      else Inl IndexError)"

text \<open>
  \<^verbatim>\<open>[i for i, e in enumerate(es) if e.source in value and e.target in value]\<close>
\<close>

fun within_idxs :: "graph \<Rightarrow> nat \<Rightarrow> nat list \<Rightarrow> pyval list \<Rightarrow> error + nat list" where
  "within_idxs g i [] value = Inr []"
| "within_idxs g i (e # es) value =
     bind (edge_source g e) (\<lambda>s. bind (edge_target g e) (\<lambda>t.
       bind (within_idxs g (Suc i) es value)
         (\<lambda>rest. Inr (if s \<in> set value \<and> t \<in> set value then i # rest else rest))))"

text \<open>
  \<^verbatim>\<open>
  [i for i, e in enumerate(es) if
      (e.source in set1 and e.target in set2) or
      (e.source in set2 and e.target in set1)]
  \<close>
\<close>

fun between_idxs ::
  "graph \<Rightarrow> nat \<Rightarrow> nat list \<Rightarrow> pyval list \<Rightarrow> pyval list \<Rightarrow> error + nat list" where
  "between_idxs g i [] set1 set2 = Inr []"
| "between_idxs g i (e # es) set1 set2 =
     bind (edge_source g e) (\<lambda>s. bind (edge_target g e) (\<lambda>t.
       bind (between_idxs g (Suc i) es set1 set2)
         (\<lambda>rest. Inr (if (s \<in> set set1 \<and> t \<in> set set2) \<or> (s \<in> set set2 \<and> t \<in> set set1)
                       then i # rest else rest))))"

text \<open>\<open>len(value)\<close> and \<open>value[i]\<close>, as the \<open>_between\<close> branch uses them.\<close>

fun py_len :: "pyarg \<Rightarrow> error + nat" where
  "py_len (Groups cs) = Inr (length cs)"
| "py_len (Coll (Items xs)) = Inr (length xs)"
| "py_len (Coll (VertexSeqArg is)) = Inr (length is)"
| "py_len (Scalar (PyStr s)) = Inr (length s)"
| "py_len (Scalar v) = Inl TypeError"

text \<open>
  \<open>_ensure_set(value[i])\<close> for an index in range. A member of a list of values is a
  value; a member of a vertex sequence is a vertex object, which is not iterable.
\<close>

fun ensure_set_of_member :: "pyarg \<Rightarrow> nat \<Rightarrow> error + pyval list" where
  "ensure_set_of_member (Groups cs) i = ensure_set (Coll (cs ! i))"
| "ensure_set_of_member (Coll (Items xs)) i = ensure_set (Scalar (xs ! i))"
| "ensure_set_of_member (Coll (VertexSeqArg is)) i = Inl TypeError"
| "ensure_set_of_member (Scalar (PyStr s)) i = ensure_set (Scalar (PyStr [s ! i]))"
| "ensure_set_of_member (Scalar v) i = Inl TypeError"

text \<open>
  One round of the loop over \<open>kwds.iteritems()\<close>, from \<open>if attr[0] == '_':\<close> to
  \<open>es = es.select(filtered_idxs)\<close>. The branches that set \<open>values\<close> end in the
  common filter \<open>[i for i, v in enumerate(values) if func(v, value)]\<close>; \<open>_within\<close>
  and \<open>_between\<close> set \<open>values = None\<close> and compute \<open>filtered_idxs\<close> themselves.
  \<open>endpoint_idxs\<close> is the branch of \<open>_source\<close>/\<open>_from\<close> and of
  \<open>_target\<close>/\<open>_to\<close>, which differ in the endpoint they read:
  \<^verbatim>\<open>
  values = [e.source for e in es]
  if op == "in" or op == "notin":
      value = _ensure_set(value)
  \<close>
  \<open>between_branch\<close> is the branch of \<open>_between\<close>:
  \<^verbatim>\<open>
  if len(value) != 2:
      raise ValueError("_between selector requires two vertex ID lists")
  set1 = _ensure_set(value[0])
  set2 = _ensure_set(value[1])
  \<close>
\<close>

definition endpoint_idxs ::
  "(nat \<Rightarrow> error + pyval) \<Rightarrow> nat list \<Rightarrow> string \<Rightarrow> oper \<Rightarrow> pyarg \<Rightarrow> error + nat list" where
  "endpoint_idxs endpoint es op func value =
     bind (mapM endpoint es) (\<lambda>values.
       bind (if op = ''in'' \<or> op = ''notin''
             then bind (ensure_set value) (\<lambda>s. Inr (Coll (Items s)))
             else Inr value)
         (\<lambda>value'. filter_idxs 0 func values value'))"

definition between_branch :: "graph \<Rightarrow> nat list \<Rightarrow> pyarg \<Rightarrow> error + nat list" where
  "between_branch g es value =
     bind (py_len value) (\<lambda>n.
       if n \<noteq> 2 then Inl (ValueError ''_between selector requires two vertex ID lists'')
       else bind (ensure_set_of_member value 0) (\<lambda>set1.
            bind (ensure_set_of_member value 1) (\<lambda>set2.
              between_idxs g 0 es set1 set2)))"

definition es_filtered_idxs ::
  "methods \<Rightarrow> graph \<Rightarrow> nat list \<Rightarrow> string \<Rightarrow> string \<Rightarrow> oper \<Rightarrow> pyarg \<Rightarrow> error + nat list" where
  "es_filtered_idxs meths g es attr op func value =
     (if attr = [] then Inl IndexError
      else if hd attr = CHR ''_'' then
        (if attr = ''_source'' \<or> attr = ''_from'' then
           endpoint_idxs (edge_source g) es op func value
         else if attr = ''_target'' \<or> attr = ''_to'' then
           endpoint_idxs (edge_target g) es op func value
         else if attr = ''_within'' then
           bind (ensure_set value) (\<lambda>value'. within_idxs g 0 es value')
         else if attr = ''_between'' then
           between_branch g es value
         else
           bind (call_method meths g (tl attr) es) (\<lambda>values. filter_idxs 0 func values value))
      else
        bind (seq_getitem (eattrs g) es (KStr attr)) (\<lambda>values. filter_idxs 0 func values value))"

definition es_select_step ::
  "methods \<Rightarrow> graph \<Rightarrow> nat list \<Rightarrow> string \<times> pyarg \<Rightarrow> error + nat list" where
  "es_select_step meths g es kv =
     (case kv of (keyword, value) \<Rightarrow>
      bind (split_keyword keyword) (\<lambda>(attr, op, func).
        bind (es_filtered_idxs meths g es attr op func value)
          (\<lambda>filtered_idxs. core_select es (ArgIndices filtered_idxs))))"

fun es_select_kwds ::
  "methods \<Rightarrow> graph \<Rightarrow> nat list \<Rightarrow> pyarg kwdict \<Rightarrow> error + nat list" where
  "es_select_kwds meths g es [] = Inr es"
| "es_select_kwds meths g es (kv # kwds) =
     bind (es_select_step meths g es kv) (\<lambda>es'. es_select_kwds meths g es' kwds)"

definition EdgeSeq_select ::
  "methods \<Rightarrow> graph \<Rightarrow> nat list \<Rightarrow> posargs \<Rightarrow> pyarg kwdict \<Rightarrow> error + nat list" where
  "EdgeSeq_select meths g self args kwds =
     bind (core_select self args) (\<lambda>es. es_select_kwds meths g es kwds)"

section \<open>The attribute store\<close>

text \<open>
  The attribute columns live in the extension module, which is not among the sources.
  A store is a dict from attribute names to columns, one value per entity.
\<close>

datatype attr_arg = Atomic pyval | Sequence "pyval list"

text \<open>
  Cyclic reuse: the slots are filled from the sequence, which starts over when it is
  used up.
\<close>

fun cycle_fill :: "nat \<Rightarrow> 'a list \<Rightarrow> 'a list \<Rightarrow> 'a list" where
  "cycle_fill 0 rest whole = []"
| "cycle_fill (Suc n) [] whole =
     (case whole of [] \<Rightarrow> [] | x # xs \<Rightarrow> x # cycle_fill n xs whole)"
| "cycle_fill (Suc n) (x # rest) whole = x # cycle_fill n rest whole"

text \<open>
  Modelled from the spec: the values that an attribute assignment writes to a scope of
  \<open>n\<close> entities, in the extension module. "A scalar (or a string, treated as atomic)
  is broadcast to every entity in the current scope; a sequence shorter than the scope
  length is cyclically repeated until it fills the scope (reuse semantics); a sequence
  longer than scope length is a length-mismatch error". An empty sequence cannot fill a
  scope that has entities; the model makes that an error as well.
\<close>

definition fill_values :: "nat \<Rightarrow> attr_arg \<Rightarrow> error + pyval list" where
  "fill_values n value =
     (case value of
        Atomic v \<Rightarrow> Inr (replicate n v)
      | Sequence xs \<Rightarrow>
          if n < length xs then Inl (ValueError ''length mismatch'')
          else if xs = [] \<and> 0 < n then Inl (ValueError ''empty sequence'')
          else Inr (cycle_fill n xs xs))"

text \<open>
  Modelled from the spec: the attribute write \<open>seq[name] = value\<close> of the extension
  module, for a sequence with absolute indices \<open>idxs\<close> over \<open>n\<close> entities. It
  "updates only the entities at that sequence's absolute indices, leaving the rest of
  the column untouched"; a column that does not exist yet starts null-filled.
\<close>

definition seq_setitem ::
  "nat \<Rightarrow> pyval list pydict \<Rightarrow> nat list \<Rightarrow> pykey \<Rightarrow> attr_arg \<Rightarrow> error + pyval list pydict" where
  "seq_setitem n cols idxs name value =
     bind (fill_values (length idxs) value) (\<lambda>vals.
       if \<exists>i \<in> set idxs. n \<le> i then Inl IndexError
       else
         let col = (case map_of cols name of Some c \<Rightarrow> c | None \<Rightarrow> replicate n PyNone)
         in Inr (AList.update name (fold (\<lambda>(i, v) c. c[i := v]) (zip idxs vals) col) cols))"

text \<open>
  Modelled from the spec: the attribute write \<open>seq[i][name] = v\<close> through the
  single-entity view at index \<open>i\<close> ("attribute get/set scoped to that one entity").
  The value is stored as it is; indexing out of range is a lookup error.
\<close>

definition entity_setitem ::
  "nat \<Rightarrow> pyval list pydict \<Rightarrow> nat \<Rightarrow> pykey \<Rightarrow> pyval \<Rightarrow> error + pyval list pydict" where
  "entity_setitem n cols i name v =
     (if n \<le> i then Inl IndexError
      else
        let col = (case map_of cols name of Some c \<Rightarrow> c | None \<Rightarrow> replicate n PyNone)
        in Inr (AList.update name (col[i := v]) cols))"

text \<open>
  Modelled from the spec: structural resize. "Inserting \<open>k\<close> entities appends \<open>k\<close>
  null-filled slots to every column in that scope."
\<close>

definition extend_columns :: "nat \<Rightarrow> pyval list pydict \<Rightarrow> pyval list pydict" where
  "extend_columns k cols = map (\<lambda>(name, col). (name, col @ replicate k PyNone)) cols"

definition add_vertices :: "graph \<Rightarrow> nat \<Rightarrow> graph" where
  "add_vertices g k = g\<lparr>vcount := vcount g + k, vattrs := extend_columns k (vattrs g)\<rparr>"

definition add_edges :: "graph \<Rightarrow> (nat \<times> nat) list \<Rightarrow> graph" where
  "add_edges g es =
     g\<lparr>get_edgelist := get_edgelist g @ es, eattrs := extend_columns (length es) (eattrs g)\<rparr>"

section \<open>The constructor of \<open>Graph\<close>\<close>

text \<open>
  Modelled from the spec: \<open>GraphBase.__init__\<close> of the extension module. The
  docstring of \<open>Graph.__init__\<close> says of the edge list: "If any of the integers is
  larger than n-1, the number of vertices is adjusted accordingly."
\<close>

definition GraphBase_init :: "nat \<Rightarrow> (nat \<times> nat) list \<Rightarrow> bool \<Rightarrow> graph" where
  "GraphBase_init nverts edges dir =
     \<lparr> vcount = fold (\<lambda>(a, b) m. max m (Suc (max a b))) edges nverts,
       directed = dir, get_edgelist = edges, gattrs = [], vattrs = [], eattrs = [] \<rparr>"

fun foldM :: "('s \<Rightarrow> 'a \<Rightarrow> error + 's) \<Rightarrow> 'a list \<Rightarrow> 's \<Rightarrow> error + 's" where
  "foldM f [] s = Inr s"
| "foldM f (x # xs) s = bind (f s x) (\<lambda>s'. foldM f xs s')"

text \<open>
  \<open>Graph.__init__\<close> with all six parameters given, as \<open>DictList\<close> calls it:
  \<^verbatim>\<open>
  GraphBase.__init__(self, nverts, edges, directed)
  for key, value in graph_attrs.iteritems():
      self[key] = value
  for key, value in vertex_attrs.iteritems():
      self.vs[key] = value
  for key, value in edge_attrs.iteritems():
      self.es[key] = value
  \<close>
  with, at the head of each of the three loop bodies,
  \<^verbatim>\<open>
  if isinstance(key, (int, long)):
      key = str(key)
  \<close>
  which is \<open>key_str\<close>. \<open>self.vs\<close> and \<open>self.es\<close> are the sequences of all
  vertices and of all edges.
\<close>

text \<open>\<open>str\<close> of an integer: its decimal digits, after a minus sign when it is negative.\<close>

function digits :: "nat \<Rightarrow> string" where
  "digits n = (if n < 10 then [char_of (48 + n)] else digits (n div 10) @ [char_of (48 + n mod 10)])"
  by pat_completeness auto
termination
  by (relation "measure id") auto

definition str_int :: "int \<Rightarrow> string" where
  "str_int i = (if i < 0 then CHR ''-'' # digits (nat (- i)) else digits (nat i))"

definition key_str :: "pykey \<Rightarrow> pykey" where
  "key_str key = (case key of KInt i \<Rightarrow> KStr (str_int i) | KStr s \<Rightarrow> KStr s)"

definition Graph_init ::
  "nat \<Rightarrow> (nat \<times> nat) list \<Rightarrow> bool \<Rightarrow> pyval pydict \<Rightarrow> pyval list pydict \<Rightarrow> pyval list pydict
     \<Rightarrow> error + graph" where
  "Graph_init nverts edges dir graph_attrs vertex_attrs edge_attrs =
     (let g0 = GraphBase_init nverts edges dir;
          g1 = fold (\<lambda>(key, value) g.
                       g\<lparr>gattrs := AList.update (key_str key) value (gattrs g)\<rparr>)
                 graph_attrs g0
      in bind (foldM (\<lambda>g (key, value).
                  bind (seq_setitem (vcount g) (vattrs g) [0..<vcount g] (key_str key)
                          (Sequence value))
                    (\<lambda>cols. Inr (g\<lparr>vattrs := cols\<rparr>)))
                vertex_attrs g1)
           (\<lambda>g2. foldM (\<lambda>g (key, value).
                     bind (seq_setitem (length (get_edgelist g)) (eattrs g)
                             [0..<length (get_edgelist g)] (key_str key) (Sequence value))
                       (\<lambda>cols. Inr (g\<lparr>eattrs := cols\<rparr>)))
                   edge_attrs g2))"

section \<open>\<open>UniqueIdGenerator\<close>\<close>

text \<open>
  Modelled from the spec: \<open>UniqueIdGenerator\<close> of \<open>igraph.datatypes\<close>, which is not
  among the sources. It is a "bijection from external name keys to dense ids assigned in
  first-seen order; \<open>len()\<close> = distinct keys seen; lookup of an unseen key appends and
  returns a new id". The generator is the list of its keys in the order of their ids,
  which is also what \<open>values()\<close> returns.
\<close>

type_synonym idgen = "pyval list"

fun index_of :: "'a list \<Rightarrow> 'a \<Rightarrow> nat option" where
  "index_of [] k = None"
| "index_of (x # xs) k = (if x = k then Some 0 else map_option Suc (index_of xs k))"

definition idgen_getitem :: "idgen \<Rightarrow> pyval \<Rightarrow> nat \<times> idgen" where
  "idgen_getitem gen k =
     (case index_of gen k of Some i \<Rightarrow> (i, gen) | None \<Rightarrow> (length gen, gen @ [k]))"

definition idgen_init :: "pyval list \<Rightarrow> idgen" where
  "idgen_init initial = fold (\<lambda>k gen. snd (idgen_getitem gen k)) initial []"

section \<open>\<open>Graph.DictList\<close>\<close>

text \<open>
  \<^verbatim>\<open>
  def create_list_from_indices(l, n):
      result = [None] * n
      for i, v in l: result[i] = v
      return result
  \<close>
\<close>

definition create_list_from_indices :: "(nat \<times> pyval) list \<Rightarrow> nat \<Rightarrow> error + pyval list" where
  "create_list_from_indices l n =
     foldM (\<lambda>result (i, v). if i < length result then Inr (result[i := v]) else Inl IndexError)
       l (replicate n PyNone)"

text \<open>
  The loop over the items of one record, the same for vertices and for edges:
  \<^verbatim>\<open>
  for k, v in vertex_data.iteritems():
      try:
          vertex_attrs[k].append((idx, v))
      except KeyError:
          vertex_attrs[k] = [(idx, v)]
  \<close>
\<close>

definition add_item ::
  "(nat \<times> pyval) list pydict \<Rightarrow> pykey \<Rightarrow> nat \<times> pyval \<Rightarrow> (nat \<times> pyval) list pydict" where
  "add_item attrs k iv =
     (case map_of attrs k of
        Some l \<Rightarrow> AList.update k (l @ [iv]) attrs
      | None \<Rightarrow> AList.update k [iv] attrs)"

definition collect_record ::
  "(nat \<times> pyval) list pydict \<Rightarrow> nat \<Rightarrow> pyval pydict \<Rightarrow> (nat \<times> pyval) list pydict" where
  "collect_record attrs idx data = fold (\<lambda>(k, v) a. add_item a k (idx, v)) data attrs"

text \<open>
  \<^verbatim>\<open>for k, v in vertex_attrs.iteritems(): vertex_attrs[k] = create_list_from_indices(v, n)\<close>
\<close>

definition materialize ::
  "(nat \<times> pyval) list pydict \<Rightarrow> nat \<Rightarrow> error + pyval list pydict" where
  "materialize attrs n =
     mapM (\<lambda>(k, v). bind (create_list_from_indices v n) (\<lambda>col. Inr (k, col))) attrs"

text \<open>
  The loop over \<open>enumerate(vertices)\<close>; the state is \<open>vertex_attrs\<close> and \<open>n\<close>.
\<close>

fun vertex_loop ::
  "(nat \<times> pyval) list pydict \<Rightarrow> nat \<Rightarrow> nat \<Rightarrow> pyval pydict list
     \<Rightarrow> (nat \<times> pyval) list pydict \<times> nat" where
  "vertex_loop vertex_attrs n idx [] = (vertex_attrs, n)"
| "vertex_loop vertex_attrs n idx (vertex_data # vertices) =
     vertex_loop (collect_record vertex_attrs idx vertex_data) (n + 1) (Suc idx) vertices"

text \<open>
  "Construct the vertices": \<open>vertices\<close> is \<open>None\<close> or a list of records; an empty list
  is falsy and takes the \<open>else\<close> branch.
\<close>

definition construct_vertices ::
  "pyval pydict list option \<Rightarrow> pykey \<Rightarrow> error + (pyval list pydict \<times> nat)" where
  "construct_vertices vertices vertex_name_attr =
     (case vertices of
        Some (r # rs) \<Rightarrow>
          (case vertex_loop [] 0 0 (r # rs) of
             (vertex_attrs, n) \<Rightarrow>
               bind (materialize vertex_attrs n) (\<lambda>cols. Inr (cols, n)))
      | _ \<Rightarrow> Inr (AList.update vertex_name_attr [] [], 0))"

text \<open>
  The iterative branch, one round per edge record. The state is the graph \<open>g\<close>, the
  generator \<open>vertex_name_map\<close> and \<open>n\<close>.
  \<^verbatim>\<open>
  src_name, dst_name = edge_data[efk_src], edge_data[efk_dest]
  v1 = vertex_name_map[src_name]
  if v1 == n:
      g.add_vertices(1)
      g.vs[n][vertex_name_attr] = src_name
      n += 1
  v2 = vertex_name_map[dst_name]
  if v2 == n:
      g.add_vertices(1)
      g.vs[n][vertex_name_attr] = dst_name
      n += 1
  g.add_edges((v1, v2))
  for k, v in edge_data.iteritems():
      g.es[idx][k] = v
  \<close>
\<close>

definition new_vertex :: "pykey \<Rightarrow> graph \<Rightarrow> nat \<Rightarrow> nat \<Rightarrow> pyval \<Rightarrow> error + (graph \<times> nat)" where
  "new_vertex vertex_name_attr g n v name =
     (if v = n then
        (let g' = add_vertices g 1 in
         bind (entity_setitem (vcount g') (vattrs g') n vertex_name_attr name)
           (\<lambda>cols. Inr (g'\<lparr>vattrs := cols\<rparr>, n + 1)))
      else Inr (g, n))"

definition set_edge_items :: "graph \<Rightarrow> nat \<Rightarrow> pyval pydict \<Rightarrow> error + graph" where
  "set_edge_items g idx edge_data =
     foldM (\<lambda>g (k, v).
        bind (entity_setitem (length (get_edgelist g)) (eattrs g) idx k v)
          (\<lambda>cols. Inr (g\<lparr>eattrs := cols\<rparr>)))
       edge_data g"

fun iterative_loop ::
  "pykey \<Rightarrow> pykey \<times> pykey \<Rightarrow> graph \<Rightarrow> idgen \<Rightarrow> nat \<Rightarrow> nat \<Rightarrow> pyval pydict list
     \<Rightarrow> error + graph" where
  "iterative_loop vertex_name_attr efk g vertex_name_map n idx [] = Inr g"
| "iterative_loop vertex_name_attr efk g vertex_name_map n idx (edge_data # edges) =
     bind (getitem edge_data (fst efk)) (\<lambda>src_name.
     bind (getitem edge_data (snd efk)) (\<lambda>dst_name.
       case idgen_getitem vertex_name_map src_name of (v1, gen1) \<Rightarrow>
       bind (new_vertex vertex_name_attr g n v1 src_name) (\<lambda>(g1, n1).
       case idgen_getitem gen1 dst_name of (v2, gen2) \<Rightarrow>
       bind (new_vertex vertex_name_attr g1 n1 v2 dst_name) (\<lambda>(g2, n2).
       bind (set_edge_items (add_edges g2 [(v1, v2)]) idx edge_data) (\<lambda>g3.
         iterative_loop vertex_name_attr efk g3 gen2 n2 (Suc idx) edges)))))"

text \<open>
  The batch branch, one round per edge record. The state is the generator, \<open>edge_list\<close>,
  \<open>edge_attrs\<close> and \<open>m\<close>.
  \<^verbatim>\<open>
  v1 = vertex_name_map[edge_data[efk_src]]
  v2 = vertex_name_map[edge_data[efk_dest]]
  edge_list.append((v1, v2))
  for k, v in edge_data.iteritems():
      ...
  m += 1
  \<close>
\<close>

fun batch_loop ::
  "pykey \<times> pykey \<Rightarrow> idgen \<Rightarrow> (nat \<times> nat) list \<Rightarrow> (nat \<times> pyval) list pydict \<Rightarrow> nat \<Rightarrow> nat
     \<Rightarrow> pyval pydict list
     \<Rightarrow> error + (idgen \<times> (nat \<times> nat) list \<times> (nat \<times> pyval) list pydict \<times> nat)" where
  "batch_loop efk vertex_name_map edge_list edge_attrs m idx [] =
     Inr (vertex_name_map, edge_list, edge_attrs, m)"
| "batch_loop efk vertex_name_map edge_list edge_attrs m idx (edge_data # edges) =
     bind (getitem edge_data (fst efk)) (\<lambda>src_name.
       case idgen_getitem vertex_name_map src_name of (v1, gen1) \<Rightarrow>
     bind (getitem edge_data (snd efk)) (\<lambda>dst_name.
       case idgen_getitem gen1 dst_name of (v2, gen2) \<Rightarrow>
         batch_loop efk gen2 (edge_list @ [(v1, v2)])
           (collect_record edge_attrs idx edge_data) (m + 1) (Suc idx) edges))"

text \<open>
  \<open>Graph.DictList(vertices, edges, directed, vertex_name_attr, edge_foreign_keys,
  iterative)\<close>. \<open>edge_foreign_keys\<close> is a pair, which the source unpacks into
  \<open>efk_src\<close> and \<open>efk_dest\<close>.
\<close>

definition DictList ::
  "pyval pydict list option \<Rightarrow> pyval pydict list \<Rightarrow> bool \<Rightarrow> pykey \<Rightarrow> pykey \<times> pykey \<Rightarrow> bool
     \<Rightarrow> error + graph" where
  "DictList vertices edges dir vertex_name_attr edge_foreign_keys iterative =
     bind (construct_vertices vertices vertex_name_attr) (\<lambda>(vertex_attrs, n).
     bind (getitem vertex_attrs vertex_name_attr) (\<lambda>vertex_names.
       if length vertex_names \<noteq> card (set vertex_names)
       then Inl (ValueError ''vertex names are not unique'')
       else
         let vertex_name_map = idgen_init vertex_names in
         if iterative then
           bind (Graph_init n [] dir [] vertex_attrs [])
             (\<lambda>g. iterative_loop vertex_name_attr edge_foreign_keys g vertex_name_map n 0 edges)
         else
           bind (batch_loop edge_foreign_keys vertex_name_map [] [] 0 0 edges)
             (\<lambda>(vertex_name_map', edge_list, edge_attrs0, m).
                bind (materialize edge_attrs0 m) (\<lambda>edge_attrs.
                  case (if length vertex_name_map' > n
                        then (AList.update vertex_name_attr vertex_name_map'
                                (extend_columns (length vertex_name_map' - n) vertex_attrs),
                              length vertex_name_map')
                        else (vertex_attrs, n)) of
                    (vertex_attrs', n') \<Rightarrow>
                      Graph_init n' edge_list dir [] vertex_attrs' edge_attrs))))"

section \<open>Notions used in the proofs\<close>

text \<open>
  The relative indices that a filter of \<open>select\<close> keeps: strictly increasing, and
  within the \<open>n\<close> positions from \<open>i\<close> on.
\<close>

definition increasing_from :: "nat \<Rightarrow> nat \<Rightarrow> nat list \<Rightarrow> bool" where
  "increasing_from i n r \<longleftrightarrow> sorted_wrt (<) r \<and> (\<forall>j \<in> set r. i \<le> j \<and> j < i + n)"

text \<open>
  The test of one predicate on one value: whether it can be evaluated, and whether it
  holds.
\<close>

definition test_ok :: "oper \<Rightarrow> pyarg \<Rightarrow> pyval \<Rightarrow> bool" where
  "test_ok func value v \<longleftrightarrow> (\<exists>b. apply_oper func v value = Inr b)"

definition test_true :: "oper \<Rightarrow> pyarg \<Rightarrow> pyval \<Rightarrow> bool" where
  "test_true func value v \<longleftrightarrow> apply_oper func v value = Inr True"

text \<open>
  A predicate on a literal attribute, as a property of absolute indices: whether it can
  be evaluated on a sequence, and whether it keeps an index.
\<close>

definition literal_ok :: "pyval list pydict \<Rightarrow> pykey \<Rightarrow> oper \<Rightarrow> pyarg \<Rightarrow> nat list \<Rightarrow> bool" where
  "literal_ok cols attr func value idxs \<longleftrightarrow>
     (\<exists>col. map_of cols attr = Some col \<and>
        (\<forall>i \<in> set idxs. i < length col \<and> test_ok func value (col ! i)))"

definition literal_keep :: "pyval list pydict \<Rightarrow> pykey \<Rightarrow> oper \<Rightarrow> pyarg \<Rightarrow> nat \<Rightarrow> bool" where
  "literal_keep cols attr func value i \<longleftrightarrow>
     (\<exists>col. map_of cols attr = Some col \<and> test_true func value (col ! i))"

text \<open>
  A keyword names a literal attribute when the attribute it parses to does not start
  with the reserved marker.
\<close>

definition literal :: "string \<Rightarrow> bool" where
  "literal keyword =
     (case split_keyword keyword of
        Inr (attr, op, func) \<Rightarrow> attr \<noteq> [] \<and> hd attr \<noteq> CHR ''_''
      | Inl e \<Rightarrow> False)"

text \<open>
  An edge connects two sets of vertex ids when one endpoint lies in the first and the
  other in the second, in either direction. \<open>endpoint_of\<close> is the endpoint that an
  endpoint property reads.
\<close>

text \<open>
  The vertex ids that a collection stands for: the elements of a list, and the absolute
  indices of the members of a vertex sequence.
\<close>

definition coll_members :: "coll \<Rightarrow> pyval list" where
  "coll_members c =
     (case c of Items xs \<Rightarrow> xs | VertexSeqArg idxs \<Rightarrow> map (\<lambda>i. PyInt (int i)) idxs)"

definition connects :: "graph \<Rightarrow> pyval list \<Rightarrow> pyval list \<Rightarrow> nat \<Rightarrow> bool" where
  "connects g set1 set2 e =
     (let s = PyInt (int (fst (get_edgelist g ! e)));
          t = PyInt (int (snd (get_edgelist g ! e)))
      in (s \<in> set set1 \<and> t \<in> set set2) \<or> (s \<in> set set2 \<and> t \<in> set set1))"

definition endpoint_of :: "string \<Rightarrow> graph \<Rightarrow> nat \<Rightarrow> pyval" where
  "endpoint_of attr g e =
     (if attr = ''_source'' \<or> attr = ''_from'' then PyInt (int (fst (get_edgelist g ! e)))
      else PyInt (int (snd (get_edgelist g ! e))))"

text \<open>
  The column that \<open>create_list_from_indices\<close> builds when no index is out of range,
  and the accumulated items for which that is so: the keys are distinct and every index
  is below \<open>m\<close>.
\<close>

definition mk_column :: "(nat \<times> pyval) list \<Rightarrow> nat \<Rightarrow> pyval list" where
  "mk_column l n = fold (\<lambda>(i, v) c. c[i := v]) l (replicate n PyNone)"

definition columns_of :: "(nat \<times> pyval) list pydict \<Rightarrow> nat \<Rightarrow> pyval list pydict" where
  "columns_of acc n = map (\<lambda>(k, l). (k, mk_column l n)) acc"

definition acc_ok :: "nat \<Rightarrow> (nat \<times> pyval) list pydict \<Rightarrow> bool" where
  "acc_ok m acc \<longleftrightarrow> is_dict acc \<and> (\<forall>(k, l) \<in> set acc. \<forall>(i, v) \<in> set l. i < m)"

text \<open>
  The graph that both branches of \<open>DictList\<close> arrive at, from the vertex columns
  \<open>vattrs0\<close> of the \<open>n0\<close> vertex records and the state of the edge loop: the
  generator, the edge list, the accumulated edge items and the number of edges.
\<close>

definition snapshot ::
  "pyval list pydict \<Rightarrow> nat \<Rightarrow> bool \<Rightarrow> pykey \<Rightarrow> idgen \<Rightarrow> (nat \<times> nat) list
     \<Rightarrow> (nat \<times> pyval) list pydict \<Rightarrow> nat \<Rightarrow> graph" where
  "snapshot vattrs0 n0 dir name gen el acc m =
     \<lparr> vcount = length gen, directed = dir, get_edgelist = el, gattrs = [],
       vattrs = AList.update name gen (extend_columns (length gen - n0) vattrs0),
       eattrs = columns_of acc m \<rparr>"

text \<open>Dicts all of whose keys are strings.\<close>

definition is_str_key :: "pykey \<Rightarrow> bool" where
  "is_str_key k = (case k of KStr s \<Rightarrow> True | KInt i \<Rightarrow> False)"

definition str_keyed :: "'a pydict \<Rightarrow> bool" where
  "str_keyed d = list_all (\<lambda>kv. is_str_key (fst kv)) d"

text \<open>The vertex records of a call of \<open>DictList\<close>: none when \<open>vertices\<close> is \<open>None\<close>.\<close>

definition vertex_records :: "pyval pydict list option \<Rightarrow> pyval pydict list" where
  "vertex_records vertices = (case vertices of Some rs \<Rightarrow> rs | None \<Rightarrow> [])"

text \<open>The ids in an edge list are ids that the generator has given out.\<close>

definition edges_ok :: "idgen \<Rightarrow> (nat \<times> nat) list \<Rightarrow> bool" where
  "edges_ok gen el \<longleftrightarrow> (\<forall>(a, b) \<in> set el. a < length gen \<and> b < length gen)"

section \<open>Example inputs\<close>

text \<open>
  The graph of the specification's \<open>within\<close>/\<open>between\<close> example: four vertices and
  the edges \<open>(0,1)\<close>, \<open>(1,2)\<close>, \<open>(2,3)\<close>, \<open>(0,3)\<close>, with some attributes;
  the attribute \<open>label\<close> is \<open>None\<close> on one vertex and on one edge.
\<close>

definition g4 :: graph where
  "g4 = \<lparr> vcount = 4, directed = False,
          get_edgelist = [(0, 1), (1, 2), (2, 3), (0, 3)],
          gattrs = [],
          vattrs = [(KStr ''age'', [PyInt 10, PyInt 30, PyInt 20, PyInt 40]),
                    (KStr ''name'', [PyStr ''a'', PyStr ''b'', PyStr ''c'', PyStr ''d'']),
                    (KStr ''idx'', [PyInt 0, PyInt 1, PyInt 2, PyInt 3]),
                    (KStr ''label'', [PyStr ''a'', PyNone, PyStr ''b'', PyStr ''c''])],
          eattrs = [(KStr ''weight'', [PyInt 1, PyInt 2, PyInt 3, PyInt 4]),
                    (KStr ''label'', [PyStr ''a'', PyNone, PyStr ''b'', PyStr ''c''])] \<rparr>"

definition no_methods :: methods where
  "no_methods = (\<lambda>name. None)"

text \<open>Edge records naming the endpoints \<open>("a","b")\<close> and \<open>("a","c")\<close>.\<close>

definition ab_ac :: "pyval pydict list" where
  "ab_ac = [[(KStr ''source'', PyStr ''a''), (KStr ''target'', PyStr ''b'')],
            [(KStr ''source'', PyStr ''a''), (KStr ''target'', PyStr ''c'')]]"

text \<open>
  One edge record with an integer among its keys:
  \<^verbatim>\<open>{"source": "a", "target": "b", 1: "w"}\<close>.
\<close>

definition a_b_1 :: "pyval pydict list" where
  "a_b_1 = [[(KStr ''source'', PyStr ''a''), (KStr ''target'', PyStr ''b''),
             (KInt 1, PyStr ''w'')]]"

lemma rindex_from_None: "rindex_from i s c = None \<longleftrightarrow> c \<notin> set s"
proof (induction s arbitrary: i)
  case Nil then show ?case by simp
next
  case (Cons x xs)
  show ?case using Cons.IH[of "Suc i"] by (cases "rindex_from (Suc i) xs c") auto
qed

lemma rindex_from_Some:
  "rindex_from i s c = Some j \<Longrightarrow>
     i \<le> j \<and> j - i < length s \<and> s ! (j - i) = c \<and> c \<notin> set (drop (Suc (j - i)) s)"
proof (induction s arbitrary: i)
  case Nil then show ?case by simp
next
  case (Cons x xs)
  show ?case
  proof (cases "rindex_from (Suc i) xs c")
    case None
    with Cons.prems have "x = c" "j = i" by (auto split: if_splits)
    moreover from None have "c \<notin> set xs" by (simp add: rindex_from_None)
    ultimately show ?thesis by simp
  next
    case (Some k)
    with Cons.prems have jk: "j = k" by simp
    from Cons.IH[of "Suc i"] Some jk have h: "Suc i \<le> k" "k - Suc i < length xs" "xs ! (k - Suc i) = c"
      "c \<notin> set (drop (Suc (k - Suc i)) xs)" by auto
    have "j - i = Suc (k - Suc i)" using h jk by arith
    then show ?thesis using h jk by auto
  qed
qed

lemma rindex_unique:
  assumes "j < length s" "s ! j = c" "c \<notin> set (drop (Suc j) s)"
  shows "rindex s c = Inr j"
proof -
  from assms have "c \<in> set s" by (auto simp: in_set_conv_nth)
  then obtain k where k: "rindex_from 0 s c = Some k"
    using rindex_from_None[of 0 s c] by (cases "rindex_from 0 s c") auto
  from rindex_from_Some[OF k] have h: "k < length s" "s ! k = c" "c \<notin> set (drop (Suc k) s)" by auto
  have "k = j"
  proof (rule ccontr)
    assume "k \<noteq> j"
    then consider "k < j" | "j < k" by arith
    then show False
    proof cases
      case 1
      then have "s ! j \<in> set (drop (Suc k) s)"
        using assms(1) by (auto simp: in_set_conv_nth intro!: exI[of _ "j - Suc k"])
      with h assms show False by simp
    next
      case 2
      then have "s ! k \<in> set (drop (Suc j) s)"
        using h(1) by (auto simp: in_set_conv_nth intro!: exI[of _ "k - Suc j"])
      with h assms show False by simp
    qed
  qed
  with k show ?thesis by (simp add: rindex_def)
qed

lemma rindex_missing: "c \<notin> set s \<Longrightarrow> rindex s c = Inl (ValueError ''substring not found'')"
  using rindex_from_None[of 0 s c] by (simp add: rindex_def)

lemma rindex_decomp:
  "c \<notin> set t \<Longrightarrow> rindex (s @ c # t) c = Inr (length s)"
  by (rule rindex_unique) (auto simp: nth_append)

lemma trailing_decomp:
  assumes "c \<notin> set t"
  shows "rev (takeWhile (\<lambda>x. x \<noteq> c) (rev (s @ c # t))) = t"
proof -
  have "\<forall>x\<in>set (rev t). x \<noteq> c" using assms by auto
  then have e1: "takeWhile (\<lambda>x. x \<noteq> c) (rev t) = rev t"
    by (simp only: takeWhile_eq_all_conv)
  have e2: "takeWhile (\<lambda>x. x \<noteq> c) (rev t @ c # rev s) = takeWhile (\<lambda>x. x \<noteq> c) (rev t)"
    by (rule takeWhile_tail) simp
  have e3: "rev (s @ c # t) = rev t @ c # rev s" by simp
  show ?thesis by (simp only: e3 e2 e1 rev_rev_ident)
qed

lemma last_split:
  "c \<in> set s \<Longrightarrow> \<exists>p t. s = p @ c # t \<and> c \<notin> set t"
  by (metis split_list_last)


lemma getitem_operators_eq: "getitem operators ''eq'' = Inr OpEq"
  by (simp add: getitem_def operators_def)

lemma split_keyword_no_underscore:
  assumes "CHR ''_'' \<notin> set kw"
  shows "split_keyword kw = Inr (kw, ''eq'', OpEq)"
proof -
  have "rindex (kw @ CHR ''_'' # ''eq'') (CHR ''_'') = Inr (length kw)"
    by (rule rindex_decomp) simp
  then show ?thesis using assms
    by (simp add: split_keyword_def bind_def getitem_operators_eq)
qed

lemma split_keyword_leading:
  assumes "CHR ''_'' \<notin> set t"
  shows "split_keyword (CHR ''_'' # t) = Inr (CHR ''_'' # t, ''eq'', OpEq)"
proof -
  have r0: "rindex (CHR ''_'' # t) (CHR ''_'') = Inr 0"
    using rindex_decomp[of "CHR ''_''" t "[]"] assms by simp
  have "rindex ((CHR ''_'' # t) @ CHR ''_'' # ''eq'') (CHR ''_'') = Inr (length (CHR ''_'' # t))"
    by (rule rindex_decomp) simp
  then show ?thesis using r0
    by (simp add: split_keyword_def bind_def getitem_operators_eq)
qed

lemma split_keyword_inner:
  assumes "CHR ''_'' \<notin> set t" "p \<noteq> []"
  shows "split_keyword (p @ CHR ''_'' # t) =
           (case map_of operators t of
              Some f \<Rightarrow> Inr (p, t, f)
            | None \<Rightarrow> Inr (p @ CHR ''_'' # t, t, OpEq))"
proof -
  have r: "rindex (p @ CHR ''_'' # t) (CHR ''_'') = Inr (length p)"
    using assms by (simp add: rindex_decomp)
  show ?thesis using assms
    by (cases "map_of operators t")
       (simp_all add: split_keyword_def bind_def r getitem_operators_eq getitem_def[of operators t])
qed

lemma keyword_spec_no_underscore:
  "CHR ''_'' \<notin> set kw \<Longrightarrow> keyword_spec kw = (kw, OpEq)"
  by (simp add: keyword_spec_def Let_def)

lemma keyword_spec_leading:
  "CHR ''_'' \<notin> set t \<Longrightarrow> keyword_spec (CHR ''_'' # t) = (CHR ''_'' # t, OpEq)"
  using trailing_decomp[of "CHR ''_''" t "[]"]
  by (simp add: keyword_spec_def Let_def trailing_token_def)

lemma keyword_spec_inner:
  "CHR ''_'' \<notin> set t \<Longrightarrow> p \<noteq> [] \<Longrightarrow>
   keyword_spec (p @ CHR ''_'' # t) =
     (case known_operator t of Some f \<Rightarrow> (p, f) | None \<Rightarrow> (p @ CHR ''_'' # t, OpEq))"
  using trailing_decomp[of "CHR ''_''" t p]
  by (cases "known_operator t") (simp_all add: keyword_spec_def Let_def trailing_token_def)

text \<open>The table of the code holds the eight operators of the specification.\<close>

lemma operators_known: "map_of operators tok = known_operator tok"
  by (simp add: operators_def known_operator_def)

text \<open>
  Claim C3. For every keyword, the parser of \<open>select\<close> returns the attribute and the
  operator that the grammar of the specification gives: the token after the final
  underscore is the operator when it is one of the eight operators \<open>eq\<close>, \<open>ne\<close>,
  \<open>lt\<close>, \<open>gt\<close>, \<open>le\<close>, \<open>ge\<close>, \<open>in\<close>, \<open>notin\<close> (named by
  \<open>known_operator\<close>, not read from the table of the code) and the final underscore is
  not the leading one; otherwise the operator is \<open>eq\<close> and the whole keyword is the
  attribute. When the trailing token is an operator, it is also the token that the
  parser returns.
\<close>

theorem split_keyword_grammar:
  "split_keyword keyword =
     Inr (fst (keyword_spec keyword), keyword_token keyword, snd (keyword_spec keyword))"
proof (cases "CHR ''_'' \<in> set keyword")
  case False
  then show ?thesis
    by (simp add: split_keyword_no_underscore keyword_spec_no_underscore keyword_token_def)
next
  case True
  then obtain p t where kw: "keyword = p @ CHR ''_'' # t" and t: "CHR ''_'' \<notin> set t"
    using last_split by metis
  show ?thesis
  proof (cases "p = []")
    case True
    with kw t show ?thesis
      using trailing_decomp[of "CHR ''_''" t "[]"]
      by (simp add: split_keyword_leading keyword_spec_leading keyword_token_def
            trailing_token_def)
  next
    case False
    with kw t show ?thesis
      using trailing_decomp[of "CHR ''_''" t p]
      by (simp add: split_keyword_inner keyword_spec_inner operators_known keyword_token_def
            trailing_token_def split: option.splits)
  qed
qed

theorem split_keyword_grammar_witness:
  "split_keyword ''age_eq'' = Inr (''age'', ''eq'', OpEq) \<and>
   split_keyword ''age_ne'' = Inr (''age'', ''ne'', OpNe) \<and>
   split_keyword ''age_lt'' = Inr (''age'', ''lt'', OpLt) \<and>
   split_keyword ''age_gt'' = Inr (''age'', ''gt'', OpGt) \<and>
   split_keyword ''age_le'' = Inr (''age'', ''le'', OpLe) \<and>
   split_keyword ''age_ge'' = Inr (''age'', ''ge'', OpGe) \<and>
   split_keyword ''age_in'' = Inr (''age'', ''in'', OpIn) \<and>
   split_keyword ''age_notin'' = Inr (''age'', ''notin'', OpNotIn) \<and>
   split_keyword ''first_name_ne'' = Inr (''first_name'', ''ne'', OpNe) \<and>
   split_keyword ''_degree'' = Inr (''_degree'', ''eq'', OpEq) \<and>
   split_keyword ''is_old'' = Inr (''is_old'', ''old'', OpEq) \<and>
   split_keyword ''age_inn'' = Inr (''age_inn'', ''inn'', OpEq) \<and>
   split_keyword ''_in'' = Inr (''_in'', ''eq'', OpEq) \<and>
   split_keyword ''name'' = Inr (''name'', ''eq'', OpEq)"
proof -
  have s: "keyword_spec ''age_eq'' = (''age'', OpEq)" "keyword_spec ''age_ne'' = (''age'', OpNe)"
       "keyword_spec ''age_lt'' = (''age'', OpLt)" "keyword_spec ''age_gt'' = (''age'', OpGt)"
       "keyword_spec ''age_le'' = (''age'', OpLe)" "keyword_spec ''age_ge'' = (''age'', OpGe)"
       "keyword_spec ''age_in'' = (''age'', OpIn)" "keyword_spec ''age_notin'' = (''age'', OpNotIn)"
       "keyword_spec ''first_name_ne'' = (''first_name'', OpNe)"
       "keyword_spec ''_degree'' = (''_degree'', OpEq)" "keyword_spec ''is_old'' = (''is_old'', OpEq)"
       "keyword_spec ''age_inn'' = (''age_inn'', OpEq)" "keyword_spec ''_in'' = (''_in'', OpEq)"
       "keyword_spec ''name'' = (''name'', OpEq)"
    by (simp_all add: keyword_spec_def trailing_token_def known_operator_def)
  have k: "keyword_token ''_degree'' = ''eq''" "keyword_token ''is_old'' = ''old''"
       "keyword_token ''age_inn'' = ''inn''" "keyword_token ''_in'' = ''eq''"
       "keyword_token ''name'' = ''eq''"
    by (simp_all add: keyword_token_def trailing_token_def)
  have t: "split_keyword ''age_eq'' = Inr (''age'', ''eq'', OpEq)"
       "split_keyword ''age_ne'' = Inr (''age'', ''ne'', OpNe)"
       "split_keyword ''age_lt'' = Inr (''age'', ''lt'', OpLt)"
       "split_keyword ''age_gt'' = Inr (''age'', ''gt'', OpGt)"
       "split_keyword ''age_le'' = Inr (''age'', ''le'', OpLe)"
       "split_keyword ''age_ge'' = Inr (''age'', ''ge'', OpGe)"
       "split_keyword ''age_in'' = Inr (''age'', ''in'', OpIn)"
       "split_keyword ''age_notin'' = Inr (''age'', ''notin'', OpNotIn)"
       "split_keyword ''first_name_ne'' = Inr (''first_name'', ''ne'', OpNe)"
    by code_simp+
  show ?thesis
    using split_keyword_grammar[of "''_degree''"] split_keyword_grammar[of "''is_old''"]
          split_keyword_grammar[of "''age_inn''"] split_keyword_grammar[of "''_in''"]
          split_keyword_grammar[of "''name''"]
    by (simp add: s t k)
qed

lemma bind_Inr_iff: "bind m f = Inr y \<longleftrightarrow> (\<exists>x. m = Inr x \<and> f x = Inr y)"
  by (cases m) (simp_all add: bind_def)

lemma bind_Inr [simp]: "bind (Inr x) f = f x"
  by (simp add: bind_def)

lemma bind_Inl [simp]: "bind (Inl e) f = Inl e"
  by (simp add: bind_def)

lemma mapM_Inr_iff:
  "mapM f xs = Inr ys \<longleftrightarrow> list_all2 (\<lambda>x y. f x = Inr y) xs ys"
proof (induction xs arbitrary: ys)
  case Nil show ?case by auto
next
  case (Cons x xs)
  show ?case by (cases ys) (auto simp: bind_Inr_iff Cons.IH)
qed

lemma core_select_indices:
  "core_select idxs (ArgIndices rel) = Inr r \<longleftrightarrow>
     (\<forall>i \<in> set rel. i < length idxs) \<and> r = map (\<lambda>i. idxs ! i) rel"
proof (induction rel arbitrary: r)
  case Nil show ?case by auto
next
  case (Cons i rel)
  show ?case using Cons.IH by (cases r) (auto simp: bind_Inr_iff)
qed

lemma increasing_from_Nil [simp]: "increasing_from i n []"
  by (simp add: increasing_from_def)

lemma increasing_from_step:
  "increasing_from (Suc i) n r \<Longrightarrow> increasing_from i (Suc n) (if b then i # r else r)"
  by (auto simp: increasing_from_def)

lemma filter_idxs_increasing:
  "filter_idxs i func values value = Inr r \<Longrightarrow> increasing_from i (length values) r"
proof (induction "values" arbitrary: i r)
  case Nil then show ?case by simp
next
  case (Cons v vs)
  then show ?case by (auto simp: bind_Inr_iff intro: increasing_from_step)
qed

lemma within_idxs_increasing:
  "within_idxs g i es value = Inr r \<Longrightarrow> increasing_from i (length es) r"
proof (induction es arbitrary: i r)
  case Nil then show ?case by simp
next
  case (Cons v vs)
  then show ?case by (auto simp: bind_Inr_iff intro: increasing_from_step)
qed

lemma between_idxs_increasing:
  "between_idxs g i es s1 s2 = Inr r \<Longrightarrow> increasing_from i (length es) r"
proof (induction es arbitrary: i r)
  case Nil then show ?case by simp
next
  case (Cons v vs)
  then show ?case by (auto simp: bind_Inr_iff intro: increasing_from_step)
qed

lemma subseq_map_nth_drop:
  "sorted_wrt (<) r \<Longrightarrow> \<forall>j \<in> set r. k \<le> j \<and> j < length xs \<Longrightarrow>
   subseq (map (\<lambda>j. xs ! j) r) (drop k xs)"
proof (induction r arbitrary: k)
  case Nil then show ?case by simp
next
  case (Cons j r')
  have j: "k \<le> j" "j < length xs" using Cons.prems(2) by auto
  have "subseq (map (\<lambda>j. xs ! j) r') (drop (Suc j) xs)"
    using Cons.prems by (intro Cons.IH) auto
  then have "subseq (xs ! j # map (\<lambda>j. xs ! j) r') (xs ! j # drop (Suc j) xs)"
    by simp
  then have a: "subseq (map (\<lambda>j. xs ! j) (j # r')) (drop j xs)"
    using j by (simp add: Cons_nth_drop_Suc)
  have "subseq (drop j xs) (drop k xs)"
  proof -
    have "drop j xs = drop (j - k) (drop k xs)" using j by simp
    then show ?thesis by (simp only: suffix_drop suffix_imp_subseq)
  qed
  with a show ?case by order
qed


lemma subseq_map_nth:
  "increasing_from 0 n r \<Longrightarrow> \<forall>j \<in> set r. j < length xs \<Longrightarrow> subseq (map (\<lambda>j. xs ! j) r) xs"
  using subseq_map_nth_drop[of r 0 xs] by (simp add: increasing_from_def)

lemma narrow_subseq:
  assumes "increasing_from 0 n filtered" "core_select idxs (ArgIndices filtered) = Inr r"
  shows "subseq r idxs"
proof -
  from assms(2) have "\<forall>i \<in> set filtered. i < length idxs" and "r = map (\<lambda>i. idxs ! i) filtered"
    unfolding core_select_indices by blast+
  then show ?thesis using subseq_map_nth[OF assms(1)] by simp
qed

lemma vs_select_step_subseq:
  "vs_select_step meths g vs kv = Inr r \<Longrightarrow> subseq r vs"
  by (auto simp: vs_select_step_def bind_Inr_iff split: prod.splits
           dest!: filter_idxs_increasing intro: narrow_subseq)

lemma endpoint_idxs_increasing:
  "endpoint_idxs endpoint es op func value = Inr r \<Longrightarrow> \<exists>n. increasing_from 0 n r"
  unfolding endpoint_idxs_def bind_Inr_iff using filter_idxs_increasing by blast

lemma between_branch_increasing:
  "between_branch g es value = Inr r \<Longrightarrow> \<exists>n. increasing_from 0 n r"
proof -
  assume "between_branch g es value = Inr r"
  then obtain s1 s2 where "between_idxs g 0 es s1 s2 = Inr r"
    by (auto simp: between_branch_def bind_Inr_iff split: if_splits)
  then show ?thesis using between_idxs_increasing by blast
qed

lemma within_branch_increasing:
  "bind (ensure_set value) (\<lambda>value'. within_idxs g 0 es value') = Inr r \<Longrightarrow>
   \<exists>n. increasing_from 0 n r"
  unfolding bind_Inr_iff using within_idxs_increasing by blast

lemma values_branch_increasing:
  "bind m (\<lambda>values. filter_idxs 0 func values value) = Inr r \<Longrightarrow>
   \<exists>n. increasing_from 0 n r"
  unfolding bind_Inr_iff using filter_idxs_increasing by blast

lemma es_filtered_idxs_increasing:
  "es_filtered_idxs meths g es attr op func value = Inr r \<Longrightarrow> \<exists>n. increasing_from 0 n r"
  unfolding es_filtered_idxs_def
  by (simp only: endpoint_idxs_increasing between_branch_increasing within_branch_increasing
        values_branch_increasing split: if_splits) simp

lemma es_select_step_subseq:
  "es_select_step meths g es kv = Inr r \<Longrightarrow> subseq r es"
  by (auto simp: es_select_step_def bind_Inr_iff split: prod.splits
           dest!: es_filtered_idxs_increasing intro: narrow_subseq)

lemma vs_select_kwds_subseq:
  "vs_select_kwds meths g vs kwds = Inr r \<Longrightarrow> subseq r vs"
proof (induction kwds arbitrary: vs)
  case Nil then show ?case by simp
next
  case (Cons kv kwds)
  then obtain vs' where "vs_select_step meths g vs kv = Inr vs'" "vs_select_kwds meths g vs' kwds = Inr r"
    by (auto simp: bind_Inr_iff)
  then show ?case using Cons.IH vs_select_step_subseq by (meson subseq_order.trans)
qed

lemma es_select_kwds_subseq:
  "es_select_kwds meths g es kwds = Inr r \<Longrightarrow> subseq r es"
proof (induction kwds arbitrary: es)
  case Nil then show ?case by simp
next
  case (Cons kv kwds)
  then obtain es' where "es_select_step meths g es kv = Inr es'" "es_select_kwds meths g es' kwds = Inr r"
    by (auto simp: bind_Inr_iff)
  then show ?case using Cons.IH es_select_step_subseq by (meson subseq_order.trans)
qed

text \<open>
  Claim C10. A call of \<open>VertexSeq.select\<close> or \<open>EdgeSeq.select\<close> with keyword
  predicates only, when it returns, returns absolute indices that are an order-preserving
  subsequence of the receiver's: no index is new and none changes place.
\<close>

theorem select_keeps_order:
  "(VertexSeq_select meths g self NoArgs kwds = Inr r \<longrightarrow> subseq r self) \<and>
   (EdgeSeq_select meths g self NoArgs kwds = Inr r \<longrightarrow> subseq r self)"
  by (simp add: VertexSeq_select_def EdgeSeq_select_def vs_select_kwds_subseq es_select_kwds_subseq)

theorem select_keeps_order_witness:
  "VertexSeq_select no_methods g4 [3, 1, 0] NoArgs
     [(''age_gt'', Scalar (PyInt 15)), (''name_ne'', Scalar (PyStr ''b''))] = Inr [3] \<and>
   subseq [3] [3, 1, 0 :: nat] \<and>
   EdgeSeq_select no_methods g4 [3, 1, 0] NoArgs
     [(''weight_le'', Scalar (PyInt 2)), (''_source_in'', Coll (Items [PyInt 0, PyInt 1]))] = Inr [1, 0] \<and>
   subseq [1, 0] [3, 1, 0 :: nat]"
proof -
  have v: "VertexSeq_select no_methods g4 [3, 1, 0] NoArgs
     [(''age_gt'', Scalar (PyInt 15)), (''name_ne'', Scalar (PyStr ''b''))] = Inr [3]"
    by code_simp
  have e: "EdgeSeq_select no_methods g4 [3, 1, 0] NoArgs
     [(''weight_le'', Scalar (PyInt 2)), (''_source_in'', Coll (Items [PyInt 0, PyInt 1]))] = Inr [1, 0]"
    by code_simp
  from v e show ?thesis
    using select_keeps_order[of no_methods g4 "[3, 1, 0]" _ "[3]"]
          select_keeps_order[of no_methods g4 "[3, 1, 0]" _ "[1, 0]"]
    by simp
qed

lemma mapM_map_Inr: "mapM (\<lambda>x. Inr (f x)) xs = Inr (map f xs)"
  by (induction xs) simp_all

lemma mapM_cong_Inr:
  "(\<And>x. x \<in> set xs \<Longrightarrow> f x = Inr (h x)) \<Longrightarrow> mapM f xs = Inr (map h xs)"
  by (induction xs) simp_all

lemma mapM_Inr_set:
  "mapM f xs = Inr ys \<Longrightarrow> (\<forall>x \<in> set xs. f x = Inr (projr (f x))) \<and> ys = map (\<lambda>x. projr (f x)) xs"
proof (induction xs arbitrary: ys)
  case Nil then show ?case by simp
next
  case (Cons x xs)
  then show ?case by (auto simp: bind_Inr_iff)
qed

text \<open>Relative positions kept by a filter, turned back into members.\<close>

lemma filter_idxs_members:
  "filter_idxs (length pre) func (map val es) value = Inr r \<Longrightarrow>
     (\<forall>e \<in> set es. \<exists>b. apply_oper func (val e) value = Inr b) \<and>
     (\<forall>j \<in> set r. j < length (pre @ es)) \<and>
     map (\<lambda>j. (pre @ es) ! j) r = filter (\<lambda>e. apply_oper func (val e) value = Inr True) es"
proof (induction es arbitrary: pre r)
  case Nil then show ?case by simp
next
  case (Cons e es)
  from Cons.prems obtain b rest where
    b: "apply_oper func (val e) value = Inr b" and
    rest: "filter_idxs (length (pre @ [e])) func (map val es) value = Inr rest" and
    r: "r = (if b then length pre # rest else rest)"
    by (auto simp: bind_Inr_iff)
  from Cons.IH[OF rest] have ih:
    "\<forall>e \<in> set es. \<exists>b. apply_oper func (val e) value = Inr b"
    "\<forall>j \<in> set rest. j < length (pre @ e # es)"
    "map (\<lambda>j. (pre @ e # es) ! j) rest = filter (\<lambda>e. apply_oper func (val e) value = Inr True) es"
    by simp_all
  show ?case using b r ih by (auto simp: nth_append)
qed

lemma filter_idxs_total:
  "\<forall>e \<in> set es. \<exists>b. apply_oper func (val e) value = Inr b \<Longrightarrow>
   \<exists>r. filter_idxs i func (map val es) value = Inr r"
proof (induction es arbitrary: i)
  case Nil then show ?case by simp
next
  case (Cons e es)
  then obtain b where "apply_oper func (val e) value = Inr b" by auto
  moreover from Cons obtain r where "filter_idxs (Suc i) func (map val es) value = Inr r"
    by fastforce
  ultimately show ?case by simp
qed

lemma narrow_by_values:
  "bind (filter_idxs 0 func (map val es) value) (\<lambda>idxs. core_select es (ArgIndices idxs)) = Inr r
   \<longleftrightarrow> (\<forall>e \<in> set es. test_ok func value (val e)) \<and> r = filter (\<lambda>e. test_true func value (val e)) es"
proof
  assume "bind (filter_idxs 0 func (map val es) value) (\<lambda>idxs. core_select es (ArgIndices idxs)) = Inr r"
  then obtain idxs where i: "filter_idxs (length ([]::nat list)) func (map val es) value = Inr idxs"
    and c: "core_select es (ArgIndices idxs) = Inr r"
    by (auto simp: bind_Inr_iff)
  from filter_idxs_members[OF i] c
  show "(\<forall>e \<in> set es. test_ok func value (val e)) \<and> r = filter (\<lambda>e. test_true func value (val e)) es"
    unfolding core_select_indices test_ok_def test_true_def by simp
next
  assume a: "(\<forall>e \<in> set es. test_ok func value (val e)) \<and> r = filter (\<lambda>e. test_true func value (val e)) es"
  then obtain idxs where i: "filter_idxs (length ([]::nat list)) func (map val es) value = Inr idxs"
    using filter_idxs_total[of es func val "value" 0] by (auto simp: test_ok_def)
  from filter_idxs_members[OF i] a have "core_select es (ArgIndices idxs) = Inr r"
    unfolding core_select_indices test_true_def by simp
  with i show "bind (filter_idxs 0 func (map val es) value) (\<lambda>idxs. core_select es (ArgIndices idxs)) = Inr r"
    by simp
qed

lemma seq_getitem_Inr:
  "seq_getitem cols idxs name = Inr values \<longleftrightarrow>
     (\<exists>col. map_of cols name = Some col \<and> (\<forall>i \<in> set idxs. i < length col) \<and>
            values = map (\<lambda>i. col ! i) idxs)"
proof (cases "map_of cols name")
  case None then show ?thesis by (simp add: seq_getitem_def getitem_def)
next
  case (Some col)
  show ?thesis
  proof
    assume "seq_getitem cols idxs name = Inr values"
    then have m: "mapM (\<lambda>i. if i < length col then Inr (col ! i) else Inl IndexError) idxs = Inr values"
      using Some by (simp add: seq_getitem_def getitem_def)
    from mapM_Inr_set[OF m] have "\<forall>i \<in> set idxs. i < length col"
      by (auto split: if_splits)
    moreover from this have "mapM (\<lambda>i. if i < length col then Inr (col ! i) else Inl IndexError) idxs
        = Inr (map (\<lambda>i. col ! i) idxs)"
      by (intro mapM_cong_Inr) simp
    ultimately show "\<exists>col. map_of cols name = Some col \<and> (\<forall>i \<in> set idxs. i < length col) \<and>
            values = map (\<lambda>i. col ! i) idxs"
      using m Some by simp
  next
    assume "\<exists>col. map_of cols name = Some col \<and> (\<forall>i \<in> set idxs. i < length col) \<and>
            values = map (\<lambda>i. col ! i) idxs"
    then have b: "\<forall>i \<in> set idxs. i < length col" and v: "values = map (\<lambda>i. col ! i) idxs"
      using Some by auto
    from b have "mapM (\<lambda>i. if i < length col then Inr (col ! i) else Inl IndexError) idxs
        = Inr (map (\<lambda>i. col ! i) idxs)"
      by (intro mapM_cong_Inr) simp
    then show "seq_getitem cols idxs name = Inr values"
      using Some v by (simp add: seq_getitem_def getitem_def)
  qed
qed

lemma literal_round:
  "bind (seq_getitem cols idxs attr)
     (\<lambda>values. bind (filter_idxs 0 func values value) (\<lambda>f. core_select idxs (ArgIndices f))) = Inr r
   \<longleftrightarrow> literal_ok cols attr func value idxs \<and> r = filter (literal_keep cols attr func value) idxs"
proof (cases "map_of cols attr")
  case None
  then show ?thesis by (simp add: seq_getitem_def getitem_def literal_ok_def)
next
  case (Some col)
  have k: "literal_keep cols attr func value = (\<lambda>i. test_true func value (col ! i))"
    using Some by (simp add: literal_keep_def fun_eq_iff)
  show ?thesis
  proof (cases "\<forall>i \<in> set idxs. i < length col")
    case True
    then have g: "seq_getitem cols idxs attr = Inr (map (\<lambda>i. col ! i) idxs)"
      using Some by (simp add: seq_getitem_Inr)
    show ?thesis
      unfolding g bind_Inr narrow_by_values k literal_ok_def using Some True by auto
  next
    case False
    then have "\<And>values. seq_getitem cols idxs attr \<noteq> Inr values"
      using Some by (auto simp: seq_getitem_Inr)
    then have "\<And>f. bind (seq_getitem cols idxs attr) f \<noteq> Inr r"
      by (simp add: bind_Inr_iff)
    then show ?thesis using False Some by (auto simp: literal_ok_def)
  qed
qed


lemma literal_ok_mono:
  "literal_ok cols attr func value idxs \<Longrightarrow> set idxs' \<subseteq> set idxs \<Longrightarrow>
   literal_ok cols attr func value idxs'"
  unfolding literal_ok_def by blast

lemma literal_split:
  "literal kw \<Longrightarrow> \<exists>attr op func. split_keyword kw = Inr (attr, op, func) \<and> attr \<noteq> [] \<and> hd attr \<noteq> CHR ''_''"
  by (auto simp: literal_def split: sum.splits)

lemma vs_select_step_literal:
  assumes "split_keyword kw = Inr (attr, op, func)" "attr \<noteq> []" "hd attr \<noteq> CHR ''_''"
  shows "vs_select_step meths g vs (kw, value) = Inr r \<longleftrightarrow>
           literal_ok (vattrs g) (KStr attr) func value vs \<and>
           r = filter (literal_keep (vattrs g) (KStr attr) func value) vs"
  using assms by (simp add: vs_select_step_def literal_round del: core_select.simps)

lemma es_filtered_idxs_literal:
  "attr \<noteq> [] \<Longrightarrow> hd attr \<noteq> CHR ''_'' \<Longrightarrow>
   es_filtered_idxs meths g es attr op func value =
     bind (seq_getitem (eattrs g) es (KStr attr)) (\<lambda>values. filter_idxs 0 func values value)"
  by (simp add: es_filtered_idxs_def)

lemma bind_assoc: "bind (bind m f) h = bind m (\<lambda>x. bind (f x) h)"
  by (cases m) simp_all

lemma bind_return: "bind m Inr = m"
  by (cases m) simp_all

lemma es_select_step_literal:
  assumes "split_keyword kw = Inr (attr, op, func)" "attr \<noteq> []" "hd attr \<noteq> CHR ''_''"
  shows "es_select_step meths g es (kw, value) = Inr r \<longleftrightarrow>
           literal_ok (eattrs g) (KStr attr) func value es \<and>
           r = filter (literal_keep (eattrs g) (KStr attr) func value) es"
  using assms
  by (simp add: es_select_step_def es_filtered_idxs_literal bind_assoc literal_round
           del: core_select.simps)

text \<open>
  Two rounds that are filters by a property of the absolute index, each defined on every
  subset of a sequence on which it is defined.
\<close>

lemma two_filters:
  fixes step1 step2 :: "nat list \<Rightarrow> error + nat list"
  assumes s1: "\<And>xs r. step1 xs = Inr r \<longleftrightarrow> ok1 xs \<and> r = filter p1 xs"
      and s2: "\<And>xs r. step2 xs = Inr r \<longleftrightarrow> ok2 xs \<and> r = filter p2 xs"
      and m1: "\<And>xs ys. ok1 xs \<Longrightarrow> set ys \<subseteq> set xs \<Longrightarrow> ok1 ys"
      and m2: "\<And>xs ys. ok2 xs \<Longrightarrow> set ys \<subseteq> set xs \<Longrightarrow> ok2 ys"
  shows "(bind (step1 xs) step2 = Inr r \<longrightarrow> bind (step2 xs) step1 = Inr r' \<longrightarrow> r' = r) \<and>
         (step1 xs = Inr a \<longrightarrow> step2 xs = Inr b \<longrightarrow>
            bind (step1 xs) step2 = Inr (filter p2 a) \<and> bind (step2 xs) step1 = Inr (filter p2 a) \<and>
            set (filter p2 a) = set a \<inter> set b)"
proof (intro conjI impI)
  assume "bind (step1 xs) step2 = Inr r" "bind (step2 xs) step1 = Inr r'"
  then have "r = filter p2 (filter p1 xs)" "r' = filter p1 (filter p2 xs)"
    by (auto simp: bind_Inr_iff s1 s2)
  then show "r' = r" by (simp add: conj_commute)
next
  assume a: "step1 xs = Inr a" and b: "step2 xs = Inr b"
  then have o: "ok1 xs" "ok2 xs" and e: "a = filter p1 xs" "b = filter p2 xs"
    by (simp_all add: s1 s2)
  have "ok2 a" using m2[OF o(2), of a] e by simp
  then show "bind (step1 xs) step2 = Inr (filter p2 a)" using a by (simp add: s2)
  have "ok1 b" using m1[OF o(1), of b] e by simp
  then have "bind (step2 xs) step1 = Inr (filter p1 b)" using b by (simp add: s1)
  then show "bind (step2 xs) step1 = Inr (filter p2 a)" using e by (simp add: conj_commute)
  show "set (filter p2 a) = set a \<inter> set b" using e by auto
qed

lemma vs_select_two:
  "vs_select_kwds meths g vs [p, q] =
     bind (vs_select_step meths g vs p) (\<lambda>vs'. vs_select_step meths g vs' q)"
  by (simp add: bind_return)

lemma es_select_two:
  "es_select_kwds meths g es [p, q] =
     bind (es_select_step meths g es p) (\<lambda>es'. es_select_step meths g es' q)"
  by (simp add: bind_return)

lemma vs_select_one: "vs_select_kwds meths g vs [p] = vs_select_step meths g vs p"
  by (simp add: bind_return)

lemma es_select_one: "es_select_kwds meths g es [p] = es_select_step meths g es p"
  by (simp add: bind_return)

text \<open>
  Claim C9, as amended. For two keyword predicates on literal attributes, with any of the
  eight operators, the combined call \<open>seq.select(**P1, **P2)\<close> walks its keywords in
  the order of the dict, which is one of the two orders. In the order \<open>P1, P2\<close> it is
  the chained call \<open>seq.select(**P1).select(**P2)\<close>, result or error; in the order
  \<open>P2, P1\<close> it returns the same indices whenever both calls return; and when each
  predicate alone can be evaluated on the receiver, the chained call and the combined
  call in either order return the same sequence, whose indices are those that both
  predicates keep.
\<close>

theorem select_composition:
  assumes "literal k1" "literal k2"
  shows
   "(VertexSeq_select meths g s NoArgs [(k1, v1), (k2, v2)] =
       bind (VertexSeq_select meths g s NoArgs [(k1, v1)])
         (\<lambda>s'. VertexSeq_select meths g s' NoArgs [(k2, v2)])) \<and>
    (VertexSeq_select meths g s NoArgs [(k1, v1), (k2, v2)] = Inr r \<longrightarrow>
       VertexSeq_select meths g s NoArgs [(k2, v2), (k1, v1)] = Inr r' \<longrightarrow> set r' = set r) \<and>
    (VertexSeq_select meths g s NoArgs [(k1, v1)] = Inr a \<longrightarrow>
       VertexSeq_select meths g s NoArgs [(k2, v2)] = Inr b \<longrightarrow>
       (\<exists>c. VertexSeq_select meths g s NoArgs [(k1, v1), (k2, v2)] = Inr c \<and>
            VertexSeq_select meths g s NoArgs [(k2, v2), (k1, v1)] = Inr c \<and>
            set c = set a \<inter> set b)) \<and>
    (EdgeSeq_select meths g s NoArgs [(k1, v1), (k2, v2)] =
       bind (EdgeSeq_select meths g s NoArgs [(k1, v1)])
         (\<lambda>s'. EdgeSeq_select meths g s' NoArgs [(k2, v2)])) \<and>
    (EdgeSeq_select meths g s NoArgs [(k1, v1), (k2, v2)] = Inr r \<longrightarrow>
       EdgeSeq_select meths g s NoArgs [(k2, v2), (k1, v1)] = Inr r' \<longrightarrow> set r' = set r) \<and>
    (EdgeSeq_select meths g s NoArgs [(k1, v1)] = Inr a \<longrightarrow>
       EdgeSeq_select meths g s NoArgs [(k2, v2)] = Inr b \<longrightarrow>
       (\<exists>c. EdgeSeq_select meths g s NoArgs [(k1, v1), (k2, v2)] = Inr c \<and>
            EdgeSeq_select meths g s NoArgs [(k2, v2), (k1, v1)] = Inr c \<and>
            set c = set a \<inter> set b))"
proof -
  from assms(1) obtain a1 o1 f1 where
    k1: "split_keyword k1 = Inr (a1, o1, f1)" "a1 \<noteq> []" "hd a1 \<noteq> CHR ''_''"
    using literal_split by blast
  from assms(2) obtain a2 o2 f2 where
    k2: "split_keyword k2 = Inr (a2, o2, f2)" "a2 \<noteq> []" "hd a2 \<noteq> CHR ''_''"
    using literal_split by blast
  have V: "(bind (vs_select_step meths g s (k1, v1)) (\<lambda>xs. vs_select_step meths g xs (k2, v2)) = Inr r \<longrightarrow>
        bind (vs_select_step meths g s (k2, v2)) (\<lambda>xs. vs_select_step meths g xs (k1, v1)) = Inr r' \<longrightarrow> r' = r) \<and>
       (vs_select_step meths g s (k1, v1) = Inr a \<longrightarrow> vs_select_step meths g s (k2, v2) = Inr b \<longrightarrow>
        bind (vs_select_step meths g s (k1, v1)) (\<lambda>xs. vs_select_step meths g xs (k2, v2)) =
          Inr (filter (literal_keep (vattrs g) (KStr a2) f2 v2) a) \<and>
        bind (vs_select_step meths g s (k2, v2)) (\<lambda>xs. vs_select_step meths g xs (k1, v1)) =
          Inr (filter (literal_keep (vattrs g) (KStr a2) f2 v2) a) \<and>
        set (filter (literal_keep (vattrs g) (KStr a2) f2 v2) a) = set a \<inter> set b)"
    by (rule two_filters[where ?ok1.0 = "literal_ok (vattrs g) (KStr a1) f1 v1"
                           and ?ok2.0 = "literal_ok (vattrs g) (KStr a2) f2 v2"])
       (simp_all add: vs_select_step_literal[OF k1] vs_select_step_literal[OF k2] literal_ok_mono)
  have E: "(bind (es_select_step meths g s (k1, v1)) (\<lambda>xs. es_select_step meths g xs (k2, v2)) = Inr r \<longrightarrow>
        bind (es_select_step meths g s (k2, v2)) (\<lambda>xs. es_select_step meths g xs (k1, v1)) = Inr r' \<longrightarrow> r' = r) \<and>
       (es_select_step meths g s (k1, v1) = Inr a \<longrightarrow> es_select_step meths g s (k2, v2) = Inr b \<longrightarrow>
        bind (es_select_step meths g s (k1, v1)) (\<lambda>xs. es_select_step meths g xs (k2, v2)) =
          Inr (filter (literal_keep (eattrs g) (KStr a2) f2 v2) a) \<and>
        bind (es_select_step meths g s (k2, v2)) (\<lambda>xs. es_select_step meths g xs (k1, v1)) =
          Inr (filter (literal_keep (eattrs g) (KStr a2) f2 v2) a) \<and>
        set (filter (literal_keep (eattrs g) (KStr a2) f2 v2) a) = set a \<inter> set b)"
    by (rule two_filters[where ?ok1.0 = "literal_ok (eattrs g) (KStr a1) f1 v1"
                           and ?ok2.0 = "literal_ok (eattrs g) (KStr a2) f2 v2"])
       (simp_all add: es_select_step_literal[OF k1] es_select_step_literal[OF k2] literal_ok_mono)
  show ?thesis
    unfolding VertexSeq_select_def EdgeSeq_select_def core_select.simps bind_Inr
      vs_select_two es_select_two vs_select_one es_select_one
    using V E by blast
qed

theorem select_composition_witness:
  "literal ''age_gt'' \<and> literal ''name_ne'' \<and>
   VertexSeq_select no_methods g4 [3, 1, 0] NoArgs [(''age_gt'', Scalar (PyInt 15))] = Inr [3, 1] \<and>
   VertexSeq_select no_methods g4 [3, 1, 0] NoArgs [(''name_ne'', Scalar (PyStr ''b''))] = Inr [3, 0] \<and>
   VertexSeq_select no_methods g4 [3, 1, 0] NoArgs
     [(''age_gt'', Scalar (PyInt 15)), (''name_ne'', Scalar (PyStr ''b''))] = Inr [3] \<and>
   VertexSeq_select no_methods g4 [3, 1, 0] NoArgs
     [(''name_ne'', Scalar (PyStr ''b'')), (''age_gt'', Scalar (PyInt 15))] = Inr [3] \<and>
   bind (VertexSeq_select no_methods g4 [3, 1, 0] NoArgs [(''age_gt'', Scalar (PyInt 15))])
     (\<lambda>s'. VertexSeq_select no_methods g4 s' NoArgs [(''name_ne'', Scalar (PyStr ''b''))]) = Inr [3] \<and>
   literal ''weight_le'' \<and> literal ''label_ne'' \<and>
   EdgeSeq_select no_methods g4 [3, 1, 0] NoArgs [(''weight_le'', Scalar (PyInt 2))] = Inr [1, 0] \<and>
   EdgeSeq_select no_methods g4 [3, 1, 0] NoArgs [(''label_ne'', Scalar PyNone)] = Inr [3, 0] \<and>
   EdgeSeq_select no_methods g4 [3, 1, 0] NoArgs
     [(''weight_le'', Scalar (PyInt 2)), (''label_ne'', Scalar PyNone)] = Inr [0] \<and>
   EdgeSeq_select no_methods g4 [3, 1, 0] NoArgs
     [(''label_ne'', Scalar PyNone), (''weight_le'', Scalar (PyInt 2))] = Inr [0] \<and>
   bind (EdgeSeq_select no_methods g4 [3, 1, 0] NoArgs [(''weight_le'', Scalar (PyInt 2))])
     (\<lambda>s'. EdgeSeq_select no_methods g4 s' NoArgs [(''label_ne'', Scalar PyNone)]) = Inr [0]"
proof -
  have l: "literal ''age_gt''" "literal ''name_ne''" by code_simp+
  have l': "literal ''weight_le''" "literal ''label_ne''" by code_simp+
  have a: "VertexSeq_select no_methods g4 [3, 1, 0] NoArgs [(''age_gt'', Scalar (PyInt 15))] = Inr [3, 1]"
    by code_simp
  have b: "VertexSeq_select no_methods g4 [3, 1, 0] NoArgs [(''name_ne'', Scalar (PyStr ''b''))] = Inr [3, 0]"
    by code_simp
  have c: "VertexSeq_select no_methods g4 [3, 1, 0] NoArgs
     [(''age_gt'', Scalar (PyInt 15)), (''name_ne'', Scalar (PyStr ''b''))] = Inr [3]"
    by code_simp
  have d: "VertexSeq_select no_methods g4 [3, 1, 0] NoArgs
     [(''name_ne'', Scalar (PyStr ''b'')), (''age_gt'', Scalar (PyInt 15))] = Inr [3]"
    by code_simp
  have a': "EdgeSeq_select no_methods g4 [3, 1, 0] NoArgs [(''weight_le'', Scalar (PyInt 2))] = Inr [1, 0]"
    by code_simp
  have b': "EdgeSeq_select no_methods g4 [3, 1, 0] NoArgs [(''label_ne'', Scalar PyNone)] = Inr [3, 0]"
    by code_simp
  have c': "EdgeSeq_select no_methods g4 [3, 1, 0] NoArgs
     [(''weight_le'', Scalar (PyInt 2)), (''label_ne'', Scalar PyNone)] = Inr [0]"
    by code_simp
  have d': "EdgeSeq_select no_methods g4 [3, 1, 0] NoArgs
     [(''label_ne'', Scalar PyNone), (''weight_le'', Scalar (PyInt 2))] = Inr [0]"
    by code_simp
  from select_composition[OF l, of no_methods g4 "[3, 1, 0]" "Scalar (PyInt 15)" "Scalar (PyStr ''b'')"]
  have v: "VertexSeq_select no_methods g4 [3, 1, 0] NoArgs
     [(''age_gt'', Scalar (PyInt 15)), (''name_ne'', Scalar (PyStr ''b''))] =
       bind (VertexSeq_select no_methods g4 [3, 1, 0] NoArgs [(''age_gt'', Scalar (PyInt 15))])
     (\<lambda>s'. VertexSeq_select no_methods g4 s' NoArgs [(''name_ne'', Scalar (PyStr ''b''))])"
    by (rule conjunct1)
  from select_composition[OF l', of no_methods g4 "[3, 1, 0]" "Scalar (PyInt 2)" "Scalar PyNone",
      THEN conjunct2, THEN conjunct2, THEN conjunct2, THEN conjunct1]
  have e: "EdgeSeq_select no_methods g4 [3, 1, 0] NoArgs
     [(''weight_le'', Scalar (PyInt 2)), (''label_ne'', Scalar PyNone)] =
       bind (EdgeSeq_select no_methods g4 [3, 1, 0] NoArgs [(''weight_le'', Scalar (PyInt 2))])
     (\<lambda>s'. EdgeSeq_select no_methods g4 s' NoArgs [(''label_ne'', Scalar PyNone)])"
    .
  show ?thesis
    using l l' a b c d a' b' c' d' v[symmetric] e[symmetric] by (simp only: simp_thms)
qed

text \<open>
  The claim as stated fails: with \<open>label = ['a', None, 'b', 'c']\<close>, the chained call
  \<open>select(label_ne=None).select(label_in='abc')\<close> returns the entities 0, 2 and 3, and
  the combined call, when the dict yields \<open>label_in\<close> first, raises \<open>TypeError\<close>
  (\<open>None in 'abc'\<close>). When the dict yields \<open>label_ne\<close> first, the combined call
  returns 0, 2 and 3 and it is the chained call in the other order,
  \<open>select(label_in='abc').select(label_ne=None)\<close>, that raises.
\<close>

theorem select_composition_counterexample:
  "bind (VertexSeq_select no_methods g4 [0, 1, 2, 3] NoArgs [(''label_ne'', Scalar PyNone)])
     (\<lambda>s'. VertexSeq_select no_methods g4 s' NoArgs [(''label_in'', Scalar (PyStr ''abc''))])
     = Inr [0, 2, 3] \<and>
   VertexSeq_select no_methods g4 [0, 1, 2, 3] NoArgs
     [(''label_in'', Scalar (PyStr ''abc'')), (''label_ne'', Scalar PyNone)] = Inl TypeError \<and>
   VertexSeq_select no_methods g4 [0, 1, 2, 3] NoArgs
     [(''label_ne'', Scalar PyNone), (''label_in'', Scalar (PyStr ''abc''))] = Inr [0, 2, 3] \<and>
   bind (VertexSeq_select no_methods g4 [0, 1, 2, 3] NoArgs [(''label_in'', Scalar (PyStr ''abc''))])
     (\<lambda>s'. VertexSeq_select no_methods g4 s' NoArgs [(''label_ne'', Scalar PyNone)])
     = Inl TypeError \<and>
   bind (EdgeSeq_select no_methods g4 [0, 1, 2, 3] NoArgs [(''label_ne'', Scalar PyNone)])
     (\<lambda>s'. EdgeSeq_select no_methods g4 s' NoArgs [(''label_in'', Scalar (PyStr ''abc''))])
     = Inr [0, 2, 3] \<and>
   EdgeSeq_select no_methods g4 [0, 1, 2, 3] NoArgs
     [(''label_in'', Scalar (PyStr ''abc'')), (''label_ne'', Scalar PyNone)] = Inl TypeError"
  by code_simp

lemma EdgeSeq_select_one:
  "EdgeSeq_select meths g es NoArgs [(keyword, value)] = es_select_step meths g es (keyword, value)"
  by (simp add: EdgeSeq_select_def bind_return)

lemma VertexSeq_select_one:
  "VertexSeq_select meths g vs NoArgs [(keyword, value)] = vs_select_step meths g vs (keyword, value)"
  by (simp add: VertexSeq_select_def bind_return)

lemma between_idxs_members:
  assumes "\<forall>e \<in> set es. e < length (get_edgelist g)"
  shows "\<exists>r. between_idxs g (length pre) es s1 s2 = Inr r \<and>
           (\<forall>j \<in> set r. j < length (pre @ es)) \<and>
           map (\<lambda>j. (pre @ es) ! j) r = filter (connects g s1 s2) es"
  using assms
proof (induction es arbitrary: pre)
  case Nil then show ?case by simp
next
  case (Cons e es)
  from Cons.prems have v: "e < length (get_edgelist g)" and vs: "\<forall>e \<in> set es. e < length (get_edgelist g)"
    by simp_all
  from Cons.IH[OF vs, of "pre @ [e]"] obtain rest where
    rest: "between_idxs g (Suc (length pre)) es s1 s2 = Inr rest"
      "\<forall>j \<in> set rest. j < length (pre @ e # es)"
      "map (\<lambda>j. (pre @ e # es) ! j) rest = filter (connects g s1 s2) es"
    by auto
  have step: "between_idxs g (length pre) (e # es) s1 s2 =
      Inr (if connects g s1 s2 e then length pre # rest else rest)"
    using v rest(1) by (simp add: edge_source_def edge_target_def connects_def Let_def)
  have m: "map (\<lambda>j. (pre @ e # es) ! j) (if connects g s1 s2 e then length pre # rest else rest)
      = filter (connects g s1 s2) (e # es)"
    using rest(3) by simp
  show ?case unfolding step using m rest(2) by auto
qed

lemma between_round:
  assumes "\<forall>e \<in> set es. e < length (get_edgelist g)"
  shows "bind (between_idxs g 0 es s1 s2) (\<lambda>f. core_select es (ArgIndices f)) =
           Inr (filter (connects g s1 s2) es)"
proof -
  from between_idxs_members[OF assms, of "[]" s1 s2] obtain r where
    r: "between_idxs g 0 es s1 s2 = Inr r" "\<forall>j \<in> set r. j < length es"
       "map (\<lambda>j. es ! j) r = filter (connects g s1 s2) es"
    by auto
  then have "core_select es (ArgIndices r) = Inr (filter (connects g s1 s2) es)"
    unfolding core_select_indices by simp
  with r(1) show ?thesis by simp
qed

lemma es_filtered_idxs_between:
  "es_filtered_idxs meths g es ''_between'' op func value = between_branch g es value"
  by (simp add: es_filtered_idxs_def)

lemma ensure_set_coll: "ensure_set (Coll c) = Inr (coll_members c)"
  by (cases c) (simp_all add: coll_members_def)

text \<open>
  Claim C6. On an edge sequence, a predicate whose keyword parses to the attribute
  \<open>_between\<close>, with whatever operator, raises the \<open>ValueError\<close> of the selector when
  its value has a length other than two; given a pair of collections, each a list of
  vertex ids or a vertex sequence, it keeps exactly the edges that connect the vertex ids
  of the first with those of the second, in either direction.
\<close>

theorem between_selector:
  assumes "split_keyword keyword = Inr (''_between'', op, func)"
  shows "(py_len value = Inr n \<longrightarrow> n \<noteq> 2 \<longrightarrow>
            EdgeSeq_select meths g es NoArgs [(keyword, value)] =
              Inl (ValueError ''_between selector requires two vertex ID lists'')) \<and>
         ((\<forall>e \<in> set es. e < length (get_edgelist g)) \<longrightarrow>
            EdgeSeq_select meths g es NoArgs [(keyword, Groups [c1, c2])] =
              Inr (filter (connects g (coll_members c1) (coll_members c2)) es))"
proof (intro conjI impI)
  assume "py_len value = Inr n" "n \<noteq> 2"
  then show "EdgeSeq_select meths g es NoArgs [(keyword, value)] =
      Inl (ValueError ''_between selector requires two vertex ID lists'')"
    using assms
    by (simp add: EdgeSeq_select_one es_select_step_def es_filtered_idxs_between between_branch_def)
next
  assume v: "\<forall>e \<in> set es. e < length (get_edgelist g)"
  have "between_branch g es (Groups [c1, c2]) =
      between_idxs g 0 es (coll_members c1) (coll_members c2)"
    by (simp add: between_branch_def ensure_set_coll)
  then show "EdgeSeq_select meths g es NoArgs [(keyword, Groups [c1, c2])] =
      Inr (filter (connects g (coll_members c1) (coll_members c2)) es)"
    using assms between_round[OF v, of "coll_members c1" "coll_members c2"]
    by (simp add: EdgeSeq_select_one es_select_step_def es_filtered_idxs_between
             del: core_select.simps)
qed

theorem between_selector_witness:
  "split_keyword ''_between_ne'' = Inr (''_between'', ''ne'', OpNe) \<and>
   EdgeSeq_select no_methods g4 [0, 1, 2, 3] NoArgs [(''_between_ne'', Groups [Items [PyInt 0]])] =
     Inl (ValueError ''_between selector requires two vertex ID lists'') \<and>
   EdgeSeq_select no_methods g4 [0, 1, 2, 3] NoArgs
     [(''_between_ne'', Groups [Items [PyInt 0], Items [PyInt 1], Items [PyInt 2]])] =
     Inl (ValueError ''_between selector requires two vertex ID lists'') \<and>
   EdgeSeq_select no_methods g4 [0, 1, 2, 3] NoArgs
     [(''_between_ne'', Groups [Items [PyInt 0], Items [PyInt 1, PyInt 2]])] = Inr [0] \<and>
   EdgeSeq_select no_methods g4 [0, 1, 2, 3] NoArgs
     [(''_between_ne'', Groups [VertexSeqArg [1, 2], VertexSeqArg [0, 3]])] = Inr [0, 2] \<and>
   EdgeSeq_select no_methods g4 [3, 2, 1, 0] NoArgs
     [(''_between_ne'', Groups [Items [PyInt 3], VertexSeqArg [0, 1, 2]])] = Inr [3, 2]"
proof -
  have k: "split_keyword ''_between_ne'' = Inr (''_between'', ''ne'', OpNe)" by code_simp
  have f: "filter (connects g4 (coll_members (Items [PyInt 0])) (coll_members (Items [PyInt 1, PyInt 2])))
             [0, 1, 2, 3] = [0]"
      "filter (connects g4 (coll_members (VertexSeqArg [1, 2])) (coll_members (VertexSeqArg [0, 3])))
             [0, 1, 2, 3] = [0, 2]"
      "filter (connects g4 (coll_members (Items [PyInt 3])) (coll_members (VertexSeqArg [0, 1, 2])))
             [3, 2, 1, 0] = [3, 2]"
    by (simp_all add: connects_def coll_members_def g4_def Let_def)
  have v: "\<forall>e \<in> set [0, 1, 2, 3]. e < length (get_edgelist g4)"
     "\<forall>e \<in> set [3, 2, 1, 0]. e < length (get_edgelist g4)" by (simp_all add: g4_def)
  have l: "py_len (Groups [Items [PyInt 0]]) = Inr 1"
     "py_len (Groups [Items [PyInt 0], Items [PyInt 1], Items [PyInt 2]]) = Inr 3" by simp_all
  note b = between_selector[OF k, of _ _ no_methods g4]
  from b[of "Groups [Items [PyInt 0]]" 1 "[0, 1, 2, 3]"] l(1)
  have 1: "EdgeSeq_select no_methods g4 [0, 1, 2, 3] NoArgs [(''_between_ne'', Groups [Items [PyInt 0]])] =
     Inl (ValueError ''_between selector requires two vertex ID lists'')" by simp
  from b[of "Groups [Items [PyInt 0], Items [PyInt 1], Items [PyInt 2]]" 3 "[0, 1, 2, 3]"] l(2)
  have 2: "EdgeSeq_select no_methods g4 [0, 1, 2, 3] NoArgs
     [(''_between_ne'', Groups [Items [PyInt 0], Items [PyInt 1], Items [PyInt 2]])] =
     Inl (ValueError ''_between selector requires two vertex ID lists'')" by simp
  from b[of _ _ "[0, 1, 2, 3]" "Items [PyInt 0]" "Items [PyInt 1, PyInt 2]"] v(1) f(1)
  have 3: "EdgeSeq_select no_methods g4 [0, 1, 2, 3] NoArgs
     [(''_between_ne'', Groups [Items [PyInt 0], Items [PyInt 1, PyInt 2]])] = Inr [0]" by simp
  from b[of _ _ "[0, 1, 2, 3]" "VertexSeqArg [1, 2]" "VertexSeqArg [0, 3]"] v(1) f(2)
  have 4: "EdgeSeq_select no_methods g4 [0, 1, 2, 3] NoArgs
     [(''_between_ne'', Groups [VertexSeqArg [1, 2], VertexSeqArg [0, 3]])] = Inr [0, 2]" by simp
  from b[of _ _ "[3, 2, 1, 0]" "Items [PyInt 3]" "VertexSeqArg [0, 1, 2]"] v(2) f(3)
  have 5: "EdgeSeq_select no_methods g4 [3, 2, 1, 0] NoArgs
     [(''_between_ne'', Groups [Items [PyInt 3], VertexSeqArg [0, 1, 2]])] = Inr [3, 2]" by simp
  from k 1 2 3 4 5 show ?thesis by (simp only: simp_thms)
qed

lemma split_keyword_func:
  assumes "split_keyword keyword = Inr (attr, op, func)"
  shows "func = (case map_of operators op of Some f \<Rightarrow> f | None \<Rightarrow> OpEq)"
proof -
  from assms obtain pre tok where
    "(case getitem operators tok of
        Inr func \<Rightarrow> Inr (pre, tok, func)
      | Inl e \<Rightarrow> bind (getitem operators ''eq'') (\<lambda>func. Inr (pre @ ''_'' @ tok, tok, func)))
     = Inr (attr, op, func)"
    unfolding split_keyword_def bind_Inr_iff Let_def by blast
  then show ?thesis
    by (cases "map_of operators tok")
       (auto simp: getitem_def[of operators tok] getitem_operators_eq)
qed

lemma split_keyword_in:
  "split_keyword keyword = Inr (attr, ''in'', func) \<Longrightarrow> func = OpIn"
  by (drule split_keyword_func) (simp add: operators_def)

lemma split_keyword_notin:
  "split_keyword keyword = Inr (attr, ''notin'', func) \<Longrightarrow> func = OpNotIn"
  by (drule split_keyword_func) (simp add: operators_def)

lemma mapM_edge_source:
  "\<forall>e \<in> set es. e < length (get_edgelist g) \<Longrightarrow>
   mapM (edge_source g) es = Inr (map (\<lambda>e. PyInt (int (fst (get_edgelist g ! e)))) es)"
  by (intro mapM_cong_Inr) (simp add: edge_source_def)

lemma mapM_edge_target:
  "\<forall>e \<in> set es. e < length (get_edgelist g) \<Longrightarrow>
   mapM (edge_target g) es = Inr (map (\<lambda>e. PyInt (int (snd (get_edgelist g ! e)))) es)"
  by (intro mapM_cong_Inr) (simp add: edge_target_def)

lemma membership_round:
  assumes "func = OpIn \<or> func = OpNotIn"
  shows "bind (filter_idxs 0 func (map val es) (Coll (Items members)))
           (\<lambda>f. core_select es (ArgIndices f)) =
         Inr (filter (\<lambda>e. (val e \<in> set members) = (func = OpIn)) es)"
proof -
  have ok: "\<forall>e \<in> set es. test_ok func (Coll (Items members)) (val e)"
    using assms by (auto simp: test_ok_def)
  have t: "(\<lambda>e. test_true func (Coll (Items members)) (val e)) =
           (\<lambda>e. (val e \<in> set members) = (func = OpIn))"
    using assms by (auto simp: test_true_def fun_eq_iff)
  show ?thesis using ok unfolding narrow_by_values t by simp
qed

lemma endpoint_idxs_coerced:
  assumes "op = ''in'' \<or> op = ''notin''"
  shows "endpoint_idxs endpoint es op func value =
           bind (mapM endpoint es) (\<lambda>values.
             bind (ensure_set value) (\<lambda>s. filter_idxs 0 func values (Coll (Items s))))"
  using assms by (auto simp: endpoint_idxs_def bind_assoc)

lemma es_filtered_idxs_endpoint:
  assumes "attr = ''_source'' \<or> attr = ''_from'' \<or> attr = ''_target'' \<or> attr = ''_to''"
    "\<forall>e \<in> set es. e < length (get_edgelist g)" "op = ''in'' \<or> op = ''notin''"
  shows "es_filtered_idxs meths g es attr op func value =
           bind (ensure_set value)
             (\<lambda>s. filter_idxs 0 func (map (endpoint_of attr g) es) (Coll (Items s)))"
proof -
  consider "attr = ''_source'' \<or> attr = ''_from''" | "attr = ''_target'' \<or> attr = ''_to''"
    using assms(1) by blast
  then show ?thesis
  proof cases
    case 1
    then have "es_filtered_idxs meths g es attr op func value =
        endpoint_idxs (edge_source g) es op func value"
      by (auto simp: es_filtered_idxs_def)
    moreover have "endpoint_of attr g = (\<lambda>e. PyInt (int (fst (get_edgelist g ! e))))"
      using 1 by (auto simp: endpoint_of_def fun_eq_iff)
    ultimately show ?thesis
      using assms(2,3) by (simp add: endpoint_idxs_coerced mapM_edge_source)
  next
    case 2
    then have "es_filtered_idxs meths g es attr op func value =
        endpoint_idxs (edge_target g) es op func value"
      by (auto simp: es_filtered_idxs_def)
    moreover have "endpoint_of attr g = (\<lambda>e. PyInt (int (snd (get_edgelist g ! e))))"
      using 2 by (auto simp: endpoint_of_def fun_eq_iff)
    ultimately show ?thesis
      using assms(2,3) by (simp add: endpoint_idxs_coerced mapM_edge_target)
  qed
qed

lemma literal_in_vertex_seq:
  assumes "bind (seq_getitem cols s attr)
     (\<lambda>values. bind (filter_idxs 0 func values (Coll (VertexSeqArg idxs)))
        (\<lambda>f. core_select s (ArgIndices f))) = Inr r"
  shows "(func = OpIn \<longrightarrow> r = []) \<and> (func = OpNotIn \<longrightarrow> r = s)"
proof -
  from assms have r: "r = filter (literal_keep cols attr func (Coll (VertexSeqArg idxs))) s"
    and ok: "literal_ok cols attr func (Coll (VertexSeqArg idxs)) s"
    unfolding literal_round by simp_all
  from ok obtain col where c: "map_of cols attr = Some col" by (auto simp: literal_ok_def)
  show ?thesis using r c by (auto simp: literal_keep_def test_true_def)
qed

text \<open>
  Claim C4, as amended. The coercion to a set is the branch of the endpoint properties of
  an edge sequence: for \<open>_source\<close>, \<open>_from\<close>, \<open>_target\<close> or \<open>_to\<close> with the operator
  token \<open>in\<close> or \<open>notin\<close>, the value goes through \<open>_ensure_set\<close>, which turns a
  vertex sequence into the set of its members' indices and a list into the set of its
  elements, and the edges are kept by membership of the endpoint in that set. A
  predicate on a literal attribute, of a vertex or an edge sequence, tests membership in
  the value as it is given: against a vertex sequence \<open>in\<close> keeps nothing and
  \<open>notin\<close> keeps everything.
\<close>

theorem membership_coercion:
  "(split_keyword keyword = Inr (attr, op, func) \<and>
    (attr = ''_source'' \<or> attr = ''_from'' \<or> attr = ''_target'' \<or> attr = ''_to'') \<and>
    (op = ''in'' \<or> op = ''notin'') \<and> (\<forall>e \<in> set es. e < length (get_edgelist g)) \<longrightarrow>
      ensure_set (Coll (VertexSeqArg idxs)) = Inr (map (\<lambda>i. PyInt (int i)) idxs) \<and>
      ensure_set (Coll (Items xs)) = Inr xs \<and>
      (ensure_set value = Inr members \<longrightarrow>
         EdgeSeq_select meths g es NoArgs [(keyword, value)] =
           Inr (filter (\<lambda>e. (endpoint_of attr g e \<in> set members) = (op = ''in'')) es)) \<and>
      (ensure_set value = Inl err \<longrightarrow>
         EdgeSeq_select meths g es NoArgs [(keyword, value)] = Inl err)) \<and>
   (literal keyword \<and> split_keyword keyword = Inr (attr, op, func) \<longrightarrow>
      (VertexSeq_select meths g s NoArgs [(keyword, Coll (VertexSeqArg idxs))] = Inr r \<longrightarrow>
         (op = ''in'' \<longrightarrow> r = []) \<and> (op = ''notin'' \<longrightarrow> r = s)) \<and>
      (EdgeSeq_select meths g s NoArgs [(keyword, Coll (VertexSeqArg idxs))] = Inr r \<longrightarrow>
         (op = ''in'' \<longrightarrow> r = []) \<and> (op = ''notin'' \<longrightarrow> r = s)))"
proof -
  have A: "ensure_set (Coll (VertexSeqArg idxs)) = Inr (map (\<lambda>i. PyInt (int i)) idxs)"
    "ensure_set (Coll (Items xs)) = Inr xs"
    by simp_all
  have B: "EdgeSeq_select meths g es NoArgs [(keyword, value)] =
      Inr (filter (\<lambda>e. (endpoint_of attr g e \<in> set members) = (op = ''in'')) es)"
    if k: "split_keyword keyword = Inr (attr, op, func)"
    and a: "attr = ''_source'' \<or> attr = ''_from'' \<or> attr = ''_target'' \<or> attr = ''_to''"
    and o: "op = ''in'' \<or> op = ''notin''"
    and v: "\<forall>e \<in> set es. e < length (get_edgelist g)"
    and m: "ensure_set value = Inr members"
  proof -
    have f: "func = OpIn \<or> func = OpNotIn" "(func = OpIn) = (op = ''in'')"
    proof -
      from o show "func = OpIn \<or> func = OpNotIn"
        using k split_keyword_in split_keyword_notin by blast
      from o show "(func = OpIn) = (op = ''in'')"
      proof
        assume "op = ''in''"
        then show ?thesis using k split_keyword_in by blast
      next
        assume n: "op = ''notin''"
        then have "func = OpNotIn" using k split_keyword_notin by blast
        then show ?thesis using n by simp
      qed
    qed
    show ?thesis
      using membership_round[OF f(1), of "endpoint_of attr g" es members] f(2)
      by (simp add: EdgeSeq_select_one es_select_step_def k es_filtered_idxs_endpoint[OF a v o] m
               bind_assoc del: core_select.simps)
  qed
  have C: "EdgeSeq_select meths g es NoArgs [(keyword, value)] = Inl err"
    if k: "split_keyword keyword = Inr (attr, op, func)"
    and a: "attr = ''_source'' \<or> attr = ''_from'' \<or> attr = ''_target'' \<or> attr = ''_to''"
    and o: "op = ''in'' \<or> op = ''notin''"
    and v: "\<forall>e \<in> set es. e < length (get_edgelist g)"
    and m: "ensure_set value = Inl err"
    by (simp add: EdgeSeq_select_one es_select_step_def k es_filtered_idxs_endpoint[OF a v o] m)
  have D: "(op = ''in'' \<longrightarrow> r = []) \<and> (op = ''notin'' \<longrightarrow> r = s)"
    if l: "literal keyword" and k: "split_keyword keyword = Inr (attr, op, func)"
    and r: "VertexSeq_select meths g s NoArgs [(keyword, Coll (VertexSeqArg idxs))] = Inr r"
  proof -
    from l k have lit: "attr \<noteq> []" "hd attr \<noteq> CHR ''_''" by (simp_all add: literal_def)
    from r have "bind (seq_getitem (vattrs g) s (KStr attr))
       (\<lambda>values. bind (filter_idxs 0 func values (Coll (VertexSeqArg idxs)))
          (\<lambda>f. core_select s (ArgIndices f))) = Inr r"
      using k lit by (simp add: VertexSeq_select_one vs_select_step_def del: core_select.simps)
    from literal_in_vertex_seq[OF this] show ?thesis
      using k split_keyword_in split_keyword_notin by blast
  qed
  have E: "(op = ''in'' \<longrightarrow> r = []) \<and> (op = ''notin'' \<longrightarrow> r = s)"
    if l: "literal keyword" and k: "split_keyword keyword = Inr (attr, op, func)"
    and r: "EdgeSeq_select meths g s NoArgs [(keyword, Coll (VertexSeqArg idxs))] = Inr r"
  proof -
    from l k have lit: "attr \<noteq> []" "hd attr \<noteq> CHR ''_''" by (simp_all add: literal_def)
    from r have "bind (seq_getitem (eattrs g) s (KStr attr))
       (\<lambda>values. bind (filter_idxs 0 func values (Coll (VertexSeqArg idxs)))
          (\<lambda>f. core_select s (ArgIndices f))) = Inr r"
      using k lit
      by (simp add: EdgeSeq_select_one es_select_step_def es_filtered_idxs_literal bind_assoc
               del: core_select.simps)
    from literal_in_vertex_seq[OF this] show ?thesis
      using k split_keyword_in split_keyword_notin by blast
  qed
  have P1: "split_keyword keyword = Inr (attr, op, func) \<and>
    (attr = ''_source'' \<or> attr = ''_from'' \<or> attr = ''_target'' \<or> attr = ''_to'') \<and>
    (op = ''in'' \<or> op = ''notin'') \<and> (\<forall>e \<in> set es. e < length (get_edgelist g)) \<longrightarrow>
      ensure_set (Coll (VertexSeqArg idxs)) = Inr (map (\<lambda>i. PyInt (int i)) idxs) \<and>
      ensure_set (Coll (Items xs)) = Inr xs \<and>
      (ensure_set value = Inr members \<longrightarrow>
         EdgeSeq_select meths g es NoArgs [(keyword, value)] =
           Inr (filter (\<lambda>e. (endpoint_of attr g e \<in> set members) = (op = ''in'')) es)) \<and>
      (ensure_set value = Inl err \<longrightarrow>
         EdgeSeq_select meths g es NoArgs [(keyword, value)] = Inl err)"
  proof (intro impI, elim conjE)
    assume k: "split_keyword keyword = Inr (attr, op, func)"
      and a: "attr = ''_source'' \<or> attr = ''_from'' \<or> attr = ''_target'' \<or> attr = ''_to''"
      and o: "op = ''in'' \<or> op = ''notin''"
      and v: "\<forall>e \<in> set es. e < length (get_edgelist g)"
    show "ensure_set (Coll (VertexSeqArg idxs)) = Inr (map (\<lambda>i. PyInt (int i)) idxs) \<and>
      ensure_set (Coll (Items xs)) = Inr xs \<and>
      (ensure_set value = Inr members \<longrightarrow>
         EdgeSeq_select meths g es NoArgs [(keyword, value)] =
           Inr (filter (\<lambda>e. (endpoint_of attr g e \<in> set members) = (op = ''in'')) es)) \<and>
      (ensure_set value = Inl err \<longrightarrow>
         EdgeSeq_select meths g es NoArgs [(keyword, value)] = Inl err)"
    proof (intro conjI impI)
      show "ensure_set (Coll (VertexSeqArg idxs)) = Inr (map (\<lambda>i. PyInt (int i)) idxs)"
        by (rule A(1))
      show "ensure_set (Coll (Items xs)) = Inr xs" by (rule A(2))
    next
      assume "ensure_set value = Inr members"
      then show "EdgeSeq_select meths g es NoArgs [(keyword, value)] =
           Inr (filter (\<lambda>e. (endpoint_of attr g e \<in> set members) = (op = ''in'')) es)"
        by (rule B[OF k a o v])
    next
      assume "ensure_set value = Inl err"
      then show "EdgeSeq_select meths g es NoArgs [(keyword, value)] = Inl err"
        by (rule C[OF k a o v])
    qed
  qed
  have P2: "literal keyword \<and> split_keyword keyword = Inr (attr, op, func) \<longrightarrow>
      (VertexSeq_select meths g s NoArgs [(keyword, Coll (VertexSeqArg idxs))] = Inr r \<longrightarrow>
         (op = ''in'' \<longrightarrow> r = []) \<and> (op = ''notin'' \<longrightarrow> r = s)) \<and>
      (EdgeSeq_select meths g s NoArgs [(keyword, Coll (VertexSeqArg idxs))] = Inr r \<longrightarrow>
         (op = ''in'' \<longrightarrow> r = []) \<and> (op = ''notin'' \<longrightarrow> r = s))"
  proof (intro impI, elim conjE)
    assume l: "literal keyword" and k: "split_keyword keyword = Inr (attr, op, func)"
    show "(VertexSeq_select meths g s NoArgs [(keyword, Coll (VertexSeqArg idxs))] = Inr r \<longrightarrow>
         (op = ''in'' \<longrightarrow> r = []) \<and> (op = ''notin'' \<longrightarrow> r = s)) \<and>
      (EdgeSeq_select meths g s NoArgs [(keyword, Coll (VertexSeqArg idxs))] = Inr r \<longrightarrow>
         (op = ''in'' \<longrightarrow> r = []) \<and> (op = ''notin'' \<longrightarrow> r = s))"
    proof (rule conjI; rule impI)
      assume "VertexSeq_select meths g s NoArgs [(keyword, Coll (VertexSeqArg idxs))] = Inr r"
      then show "(op = ''in'' \<longrightarrow> r = []) \<and> (op = ''notin'' \<longrightarrow> r = s)" by (rule D[OF l k])
    next
      assume "EdgeSeq_select meths g s NoArgs [(keyword, Coll (VertexSeqArg idxs))] = Inr r"
      then show "(op = ''in'' \<longrightarrow> r = []) \<and> (op = ''notin'' \<longrightarrow> r = s)" by (rule E[OF l k])
    qed
  qed
  from P1 P2 show ?thesis by (rule conjI)
qed

theorem membership_coercion_witness:
  "split_keyword ''_source_in'' = Inr (''_source'', ''in'', OpIn) \<and>
   length (get_edgelist g4) = 4 \<and>
   ensure_set (Coll (VertexSeqArg [0, 2])) = Inr [PyInt 0, PyInt 2] \<and>
   EdgeSeq_select no_methods g4 [0, 1, 2, 3] NoArgs [(''_source_in'', Coll (VertexSeqArg [0, 2]))]
     = Inr [0, 2, 3] \<and>
   literal ''idx_in'' \<and> split_keyword ''idx_in'' = Inr (''idx'', ''in'', OpIn) \<and>
   VertexSeq_select no_methods g4 [0, 1, 2, 3] NoArgs [(''idx_in'', Coll (VertexSeqArg [0, 2]))]
     = Inr []"
proof -
  have k: "split_keyword ''_source_in'' = Inr (''_source'', ''in'', OpIn)" by code_simp
  have v: "\<forall>e \<in> set [0, 1, 2, 3]. e < length (get_edgelist g4)" by (simp add: g4_def)
  have e: "ensure_set (Coll (VertexSeqArg [0, 2])) = Inr [PyInt 0, PyInt 2]" by simp
  have f: "filter (\<lambda>e. (endpoint_of ''_source'' g4 e \<in> set [PyInt 0, PyInt 2]) = (''in'' = ''in''))
             [0, 1, 2, 3] = [0, 2, 3]"
    by (simp add: endpoint_of_def g4_def)
  have l: "literal ''idx_in''" by code_simp
  have k2: "split_keyword ''idx_in'' = Inr (''idx'', ''in'', OpIn)" by code_simp
  have r: "VertexSeq_select no_methods g4 [0, 1, 2, 3] NoArgs [(''idx_in'', Coll (VertexSeqArg [0, 2]))]
     = Inr []" by code_simp
  have "EdgeSeq_select no_methods g4 [0, 1, 2, 3] NoArgs [(''_source_in'', Coll (VertexSeqArg [0, 2]))]
     = Inr [0, 2, 3]"
    using membership_coercion[of "''_source_in''" "''_source''" "''in''" OpIn "[0, 1, 2, 3]" g4
        "[0, 2]" "[]" "Coll (VertexSeqArg [0, 2])" "[PyInt 0, PyInt 2]" no_methods] k v e f
    by simp
  moreover have "length (get_edgelist g4) = 4" by (simp add: g4_def)
  ultimately show ?thesis using k e l k2 r by simp
qed

text \<open>
  The claim as stated fails on a vertex sequence and on a literal attribute of an edge
  sequence: with the vertex sequence of the vertices 0 and 2 on the right-hand side,
  \<open>idx_in\<close> keeps no vertex and \<open>weight_in\<close> keeps no edge, while the set of the
  member indices \<open>{0, 2}\<close> would keep the vertices 0 and 2 and the edge of weight 2.
\<close>

theorem membership_coercion_counterexample:
  "VertexSeq_select no_methods g4 [0, 1, 2, 3] NoArgs [(''idx_in'', Coll (VertexSeqArg [0, 2]))]
     = Inr [] \<and>
   ensure_set (Coll (VertexSeqArg [0, 2])) = Inr [PyInt 0, PyInt 2] \<and>
   VertexSeq_select no_methods g4 [0, 1, 2, 3] NoArgs [(''idx_in'', Coll (Items [PyInt 0, PyInt 2]))]
     = Inr [0, 2] \<and>
   EdgeSeq_select no_methods g4 [0, 1, 2, 3] NoArgs [(''weight_in'', Coll (VertexSeqArg [0, 2]))]
     = Inr [] \<and>
   EdgeSeq_select no_methods g4 [0, 1, 2, 3] NoArgs [(''weight_in'', Coll (Items [PyInt 0, PyInt 2]))]
     = Inr [1]"
  by code_simp

subsection \<open>Columns\<close>

lemma foldM_updates:
  "\<forall>(i, v) \<in> set l. i < length c \<Longrightarrow>
   foldM (\<lambda>result (i, v). if i < length result then Inr (result[i := v]) else Inl IndexError) l c
     = Inr (fold (\<lambda>(i, v) c. c[i := v]) l c)"
proof (induction l arbitrary: c)
  case Nil then show ?case by simp
next
  case (Cons p l)
  obtain i v where p: "p = (i, v)" by (cases p)
  with Cons.prems have "i < length c" "\<forall>(j, w) \<in> set l. j < length (c[i := v])" by auto
  with Cons.IH[of "c[i := v]"] p show ?case by simp
qed

lemma create_list_ok:
  "\<forall>(i, v) \<in> set l. i < n \<Longrightarrow> create_list_from_indices l n = Inr (mk_column l n)"
  unfolding create_list_from_indices_def mk_column_def by (rule foldM_updates) simp

lemma length_fold_update [simp]: "length (fold (\<lambda>(i, v) c. c[i := v]) l c) = length c"
  by (induction l arbitrary: c) (auto split: prod.splits)

lemma length_mk_column [simp]: "length (mk_column l n) = n"
  by (simp add: mk_column_def)

lemma fold_update_append:
  "\<forall>(i, v) \<in> set l. i < length c \<Longrightarrow>
   fold (\<lambda>(i, v) c. c[i := v]) l (c @ d) = fold (\<lambda>(i, v) c. c[i := v]) l c @ d"
proof (induction l arbitrary: c)
  case Nil then show ?case by simp
next
  case (Cons p l)
  obtain i v where p: "p = (i, v)" by (cases p)
  with Cons.prems have "i < length c" "\<forall>(j, w) \<in> set l. j < length (c[i := v])" by auto
  with Cons.IH[of "c[i := v]"] p show ?case by (simp add: list_update_append1)
qed

lemma mk_column_extend:
  "\<forall>(i, v) \<in> set l. i < n \<Longrightarrow> mk_column l (n + k) = mk_column l n @ replicate k PyNone"
  unfolding mk_column_def by (simp add: replicate_add fold_update_append)

lemma mk_column_snoc: "mk_column (l @ [(i, v)]) n = (mk_column l n)[i := v]"
  by (simp add: mk_column_def)

lemma mk_column_single: "mk_column [(i, v)] n = (replicate n PyNone)[i := v]"
  by (simp add: mk_column_def)

lemma materialize_ok:
  "acc_ok n acc \<Longrightarrow> materialize acc n = Inr (columns_of acc n)"
  unfolding materialize_def columns_of_def
  by (rule mapM_cong_Inr) (auto simp: acc_ok_def create_list_ok)

lemma map_fst_columns_of [simp]: "map fst (columns_of acc n) = map fst acc"
  by (simp add: columns_of_def case_prod_unfold comp_def)

lemma map_of_columns_of:
  "map_of (columns_of acc n) k = map_option (\<lambda>l. mk_column l n) (map_of acc k)"
  by (induction acc) (auto simp: columns_of_def)

lemma columns_of_update:
  "columns_of (AList.update k l acc) n = AList.update k (mk_column l n) (columns_of acc n)"
  by (induction acc) (auto simp: columns_of_def)

lemma columns_of_extend:
  "acc_ok m acc \<Longrightarrow> extend_columns k (columns_of acc m) = columns_of acc (m + k)"
  by (auto simp: extend_columns_def columns_of_def acc_ok_def mk_column_extend)

lemma columns_of_lengths:
  "(k, c) \<in> set (columns_of acc n) \<Longrightarrow> length c = n"
  by (auto simp: columns_of_def)

subsection \<open>Accumulating the items of records\<close>

lemma acc_ok_mono: "acc_ok m acc \<Longrightarrow> m \<le> m' \<Longrightarrow> acc_ok m' acc"
  by (fastforce simp: acc_ok_def)

lemma acc_ok_Nil [simp]: "acc_ok m []"
  by (simp add: acc_ok_def is_dict_def)

lemma set_update_subset:
  "(k', x) \<in> set (AList.update k v al) \<Longrightarrow> (k', x) = (k, v) \<or> (k', x) \<in> set al"
  by (induction al) (auto split: if_splits)

lemma add_item_ok:
  assumes "acc_ok m acc" "i < m"
  shows "acc_ok m (add_item acc k (i, v))"
proof (cases "map_of acc k")
  case None
  then have e: "add_item acc k (i, v) = AList.update k [(i, v)] acc" by (simp add: add_item_def)
  show ?thesis unfolding e acc_ok_def is_dict_def
    using assms by (auto simp: acc_ok_def is_dict_def distinct_update dest!: set_update_subset)
next
  case (Some l)
  then have e: "add_item acc k (i, v) = AList.update k (l @ [(i, v)]) acc" by (simp add: add_item_def)
  from Some have "(k, l) \<in> set acc" by (rule map_of_SomeD)
  then show ?thesis unfolding e acc_ok_def is_dict_def
    using assms by (fastforce simp: acc_ok_def is_dict_def distinct_update dest!: set_update_subset)
qed

lemma collect_record_ok:
  "acc_ok m acc \<Longrightarrow> idx < m \<Longrightarrow> acc_ok m (collect_record acc idx data)"
  unfolding collect_record_def
  by (induction data arbitrary: acc) (auto simp: add_item_ok)

lemma vertex_loop_ok:
  "vertex_loop acc n idx recs = (acc', n') \<Longrightarrow> acc_ok idx acc \<Longrightarrow>
   n' = n + length recs \<and> acc_ok (idx + length recs) acc'"
proof (induction recs arbitrary: acc n idx)
  case Nil then show ?case by simp
next
  case (Cons r recs)
  have "acc_ok (Suc idx) acc" using Cons.prems(2) by (rule acc_ok_mono) simp
  then have "acc_ok (Suc idx) (collect_record acc idx r)" by (rule collect_record_ok) simp
  from Cons.IH[OF _ this, of "n + 1"] Cons.prems(1) show ?case by simp
qed

subsection \<open>Writing whole columns: the constructor\<close>

lemma cycle_fill_self: "cycle_fill (length rest) rest whole = rest"
  by (induction rest) simp_all

lemma fill_values_exact:
  "length col = n \<Longrightarrow> fill_values n (Sequence col) = Inr col"
  by (auto simp: fill_values_def cycle_fill_self)

lemma fold_update_zip:
  "k + length xs \<le> length base \<Longrightarrow>
   fold (\<lambda>(i, v) c. c[i := v]) (zip [k..<k + length xs] xs) base =
     take k base @ xs @ drop (k + length xs) base"
proof (induction xs arbitrary: k base)
  case Nil then show ?case by simp
next
  case (Cons x xs)
  have u: "[k..<k + length (x # xs)] = k # [Suc k..<Suc k + length xs]"
    by (subst upt_conv_Cons) simp_all
  have "fold (\<lambda>(i, v) c. c[i := v]) (zip [Suc k..<Suc k + length xs] xs) (base[k := x]) =
        take (Suc k) (base[k := x]) @ xs @ drop (Suc k + length xs) (base[k := x])"
    using Cons.prems by (intro Cons.IH) simp
  also have "\<dots> = take k base @ (x # xs) @ drop (k + length (x # xs)) base"
    using Cons.prems by (simp add: take_Suc_conv_app_nth)
  finally show ?case unfolding u by simp
qed

lemma fold_update_all:
  "length xs = length base \<Longrightarrow>
   fold (\<lambda>(i, v) c. c[i := v]) (zip [0..<length xs] xs) base = xs"
  using fold_update_zip[of 0 xs base] by simp

lemma update_new: "k \<notin> fst ` set al \<Longrightarrow> AList.update k v al = al @ [(k, v)]"
  by (induction al) auto

lemma seq_setitem_new:
  assumes "length col = n" "key \<notin> fst ` set cols"
  shows "seq_setitem n cols [0..<n] key (Sequence col) = Inr (cols @ [(key, col)])"
proof -
  have f: "fold (\<lambda>(i, v) c. c[i := v]) (zip [0..<n] col) (replicate n PyNone) = col"
    using fold_update_all[of col "replicate n PyNone"] assms by simp
  have m: "map_of cols key = None" using assms(2) by (simp add: map_of_eq_None_iff)
  show ?thesis
    using assms by (simp add: seq_setitem_def fill_values_exact m f update_new)
qed

lemma key_str_id: "is_str_key k \<Longrightarrow> key_str k = k"
  by (cases k) (simp_all add: key_str_def is_str_key_def)

lemma str_keyed_iff: "str_keyed d \<longleftrightarrow> (\<forall>(k, v) \<in> set d. is_str_key k)"
  by (auto simp: str_keyed_def list_all_iff)

lemma foldM_set_vattrs:
  assumes "distinct (map fst (vattrs g @ kvs))" "\<forall>(k, c) \<in> set kvs. length c = vcount g"
    "str_keyed kvs"
  shows "foldM (\<lambda>g (key, value).
            bind (seq_setitem (vcount g) (vattrs g) [0..<vcount g] (key_str key) (Sequence value))
              (\<lambda>cols. Inr (g\<lparr>vattrs := cols\<rparr>))) kvs g
         = Inr (g\<lparr>vattrs := vattrs g @ kvs\<rparr>)"
  using assms
proof (induction kvs arbitrary: g)
  case Nil then show ?case by simp
next
  case (Cons kv kvs)
  obtain k c where kv: "kv = (k, c)" by (cases kv)
  have ks: "key_str k = k" "str_keyed kvs"
    using Cons.prems(3) kv by (simp_all add: str_keyed_def key_str_id)
  have s: "seq_setitem (vcount g) (vattrs g) [0..<vcount g] k (Sequence c) = Inr (vattrs g @ [(k, c)])"
    using Cons.prems kv by (intro seq_setitem_new) auto
  let ?g = "g\<lparr>vattrs := vattrs g @ [(k, c)]\<rparr>"
  have "foldM (\<lambda>g (key, value).
            bind (seq_setitem (vcount g) (vattrs g) [0..<vcount g] (key_str key) (Sequence value))
              (\<lambda>cols. Inr (g\<lparr>vattrs := cols\<rparr>))) kvs ?g
         = Inr (?g\<lparr>vattrs := vattrs ?g @ kvs\<rparr>)"
    using Cons.prems(1,2) kv ks(2) by (intro Cons.IH) auto
  then show ?case using s kv ks(1) by simp
qed

lemma foldM_set_eattrs:
  assumes "distinct (map fst (eattrs g @ kvs))" "\<forall>(k, c) \<in> set kvs. length c = length (get_edgelist g)"
    "str_keyed kvs"
  shows "foldM (\<lambda>g (key, value).
            bind (seq_setitem (length (get_edgelist g)) (eattrs g) [0..<length (get_edgelist g)]
                    (key_str key) (Sequence value))
              (\<lambda>cols. Inr (g\<lparr>eattrs := cols\<rparr>))) kvs g
         = Inr (g\<lparr>eattrs := eattrs g @ kvs\<rparr>)"
  using assms
proof (induction kvs arbitrary: g)
  case Nil then show ?case by simp
next
  case (Cons kv kvs)
  obtain k c where kv: "kv = (k, c)" by (cases kv)
  have ks: "key_str k = k" "str_keyed kvs"
    using Cons.prems(3) kv by (simp_all add: str_keyed_def key_str_id)
  have s: "seq_setitem (length (get_edgelist g)) (eattrs g) [0..<length (get_edgelist g)] k (Sequence c)
      = Inr (eattrs g @ [(k, c)])"
    using Cons.prems kv by (intro seq_setitem_new) auto
  let ?g = "g\<lparr>eattrs := eattrs g @ [(k, c)]\<rparr>"
  have "foldM (\<lambda>g (key, value).
            bind (seq_setitem (length (get_edgelist g)) (eattrs g) [0..<length (get_edgelist g)]
                    (key_str key) (Sequence value))
              (\<lambda>cols. Inr (g\<lparr>eattrs := cols\<rparr>))) kvs ?g
         = Inr (?g\<lparr>eattrs := eattrs ?g @ kvs\<rparr>)"
    using Cons.prems(1,2) kv ks(2) by (intro Cons.IH) auto
  then show ?case using s kv ks(1) by simp
qed

lemma vcount_GraphBase_init:
  "\<forall>(a, b) \<in> set edges. a < n \<and> b < n \<Longrightarrow>
   fold (\<lambda>(a, b) m. max m (Suc (max a b))) edges n = n"
proof (induction edges)
  case Nil then show ?case by simp
next
  case (Cons e edges)
  obtain a b where e: "e = (a, b)" by (cases e)
  with Cons.prems have "a < n" "b < n" by simp_all
  then have "Suc (max a b) \<le> n" by (simp add: max_def)
  then have "max n (Suc (max a b)) = n" by (rule max_absorb1)
  with Cons e show ?case by simp
qed

lemma Graph_init_ok:
  assumes "\<forall>(a, b) \<in> set edges. a < n \<and> b < n"
    "is_dict vertex_attrs" "\<forall>(k, c) \<in> set vertex_attrs. length c = n"
    "is_dict edge_attrs" "\<forall>(k, c) \<in> set edge_attrs. length c = length edges"
    "str_keyed vertex_attrs" "str_keyed edge_attrs"
  shows "Graph_init n edges dir [] vertex_attrs edge_attrs =
           Inr \<lparr> vcount = n, directed = dir, get_edgelist = edges, gattrs = [],
                 vattrs = vertex_attrs, eattrs = edge_attrs \<rparr>"
proof -
  let ?g0 = "\<lparr> vcount = n, directed = dir, get_edgelist = edges, gattrs = [],
                 vattrs = [], eattrs = [] \<rparr>"
  have g0: "GraphBase_init n edges dir = ?g0"
    using assms(1) by (simp add: GraphBase_init_def vcount_GraphBase_init)
  have v: "foldM (\<lambda>g (key, value).
            bind (seq_setitem (vcount g) (vattrs g) [0..<vcount g] (key_str key) (Sequence value))
              (\<lambda>cols. Inr (g\<lparr>vattrs := cols\<rparr>))) vertex_attrs ?g0
         = Inr (?g0\<lparr>vattrs := vattrs ?g0 @ vertex_attrs\<rparr>)"
    using assms(2,3,6) by (intro foldM_set_vattrs) (simp_all add: is_dict_def)
  let ?g1 = "?g0\<lparr>vattrs := vattrs ?g0 @ vertex_attrs\<rparr>"
  have e: "foldM (\<lambda>g (key, value).
            bind (seq_setitem (length (get_edgelist g)) (eattrs g) [0..<length (get_edgelist g)]
                    (key_str key) (Sequence value))
              (\<lambda>cols. Inr (g\<lparr>eattrs := cols\<rparr>))) edge_attrs ?g1
         = Inr (?g1\<lparr>eattrs := eattrs ?g1 @ edge_attrs\<rparr>)"
    using assms(4,5,7) by (intro foldM_set_eattrs) (simp_all add: is_dict_def)
  show ?thesis
    unfolding Graph_init_def g0 Let_def using v e by simp
qed

subsection \<open>The id generator\<close>

lemma index_of_None: "index_of xs k = None \<longleftrightarrow> k \<notin> set xs"
  by (induction xs) auto

lemma index_of_Some: "index_of xs k = Some i \<Longrightarrow> i < length xs \<and> xs ! i = k"
  by (induction xs arbitrary: i) (auto split: if_splits)

lemma idgen_getitem_old:
  "k \<in> set gen \<Longrightarrow> \<exists>i. idgen_getitem gen k = (i, gen) \<and> i < length gen \<and> gen ! i = k"
  by (cases "index_of gen k") (auto simp: idgen_getitem_def index_of_None dest: index_of_Some)

lemma idgen_getitem_new:
  "k \<notin> set gen \<Longrightarrow> idgen_getitem gen k = (length gen, gen @ [k])"
  by (simp add: idgen_getitem_def index_of_None[THEN iffD2])

lemma idgen_init_distinct:
  "distinct (pre @ xs) \<Longrightarrow> fold (\<lambda>k gen. snd (idgen_getitem gen k)) xs pre = pre @ xs"
proof (induction xs arbitrary: pre)
  case Nil then show ?case by simp
next
  case (Cons x xs)
  then have "x \<notin> set pre" "distinct ((pre @ [x]) @ xs)" by auto
  with Cons.IH[of "pre @ [x]"] show ?case by (simp add: idgen_getitem_new)
qed

lemma idgen_init_id: "distinct xs \<Longrightarrow> idgen_init xs = xs"
  using idgen_init_distinct[of "[]" xs] by (simp add: idgen_init_def)

subsection \<open>One round of the iterative loop\<close>

lemma extend_columns_0 [simp]: "extend_columns 0 cols = cols"
  by (induction cols) (auto simp: extend_columns_def)

lemma extend_columns_twice:
  "extend_columns j (extend_columns k cols) = extend_columns (k + j) cols"
  by (induction cols) (auto simp: extend_columns_def replicate_add)

lemma extend_columns_update:
  "extend_columns k (AList.update name v cols) =
     AList.update name (v @ replicate k PyNone) (extend_columns k cols)"
  by (induction cols) (auto simp: extend_columns_def)

lemma map_fst_extend_columns [simp]: "map fst (extend_columns k cols) = map fst cols"
  by (induction cols) (auto simp: extend_columns_def)

lemma new_vertex_snapshot:
  assumes "n0 \<le> length gen" "idgen_getitem gen k = (v, gen')"
  shows "new_vertex name (snapshot va n0 dir name gen el acc m) (length gen) v k =
           Inr (snapshot va n0 dir name gen' el acc m, length gen')"
proof (cases "k \<in> set gen")
  case True
  from idgen_getitem_old[OF True] assms(2) have "v < length gen" "gen' = gen" by auto
  then show ?thesis by (simp add: new_vertex_def)
next
  case False
  from idgen_getitem_new[OF False] assms(2) have v: "v = length gen" and g: "gen' = gen @ [k]"
    by auto
  let ?d = "length gen - n0"
  have d: "length (gen @ [k]) - n0 = ?d + 1" using assms(1) by simp
  let ?cols = "extend_columns 1 (AList.update name gen (extend_columns ?d va))"
  have c: "?cols = AList.update name (gen @ [PyNone]) (extend_columns (?d + 1) va)"
    by (simp add: extend_columns_update extend_columns_twice)
  have m: "map_of ?cols name = Some (gen @ [PyNone])"
    unfolding c by (simp add: update_conv')
  have "entity_setitem (length gen + 1) ?cols (length gen) name k =
      Inr (AList.update name (gen @ [k]) (extend_columns (?d + 1) va))"
    unfolding entity_setitem_def m unfolding c by simp
  moreover have "Suc (length gen) - n0 = Suc (length gen - n0)" using assms(1) by simp
  ultimately show ?thesis
    unfolding new_vertex_def v g by (simp add: Let_def add_vertices_def snapshot_def)
qed

lemma entity_setitem_columns:
  "entity_setitem (Suc m) (columns_of acc (Suc m)) m k v =
     Inr (columns_of (add_item acc k (m, v)) (Suc m))"
proof (cases "map_of acc k")
  case None
  then show ?thesis
    by (simp add: entity_setitem_def map_of_columns_of add_item_def columns_of_update mk_column_single)
next
  case (Some l)
  then show ?thesis
    by (simp add: entity_setitem_def map_of_columns_of add_item_def columns_of_update mk_column_snoc)
qed

lemma set_edge_items_columns:
  assumes "eattrs g = columns_of acc (Suc m)" "length (get_edgelist g) = Suc m"
  shows "set_edge_items g m data = Inr (g\<lparr>eattrs := columns_of (collect_record acc m data) (Suc m)\<rparr>)"
  using assms
proof (induction data arbitrary: g acc)
  case Nil
  then show ?case by (simp add: set_edge_items_def collect_record_def)
next
  case (Cons p data)
  obtain k v where p: "p = (k, v)" by (cases p)
  let ?g = "g\<lparr>eattrs := columns_of (add_item acc k (m, v)) (Suc m)\<rparr>"
  have ih: "set_edge_items ?g m data =
      Inr (?g\<lparr>eattrs := columns_of (collect_record (add_item acc k (m, v)) m data) (Suc m)\<rparr>)"
    using Cons.prems by (intro Cons.IH) simp_all
  show ?case
    using ih Cons.prems p
    by (simp add: set_edge_items_def collect_record_def entity_setitem_columns)
qed

lemma edge_round_snapshot:
  assumes "acc_ok m acc" "m = length el"
  shows "set_edge_items (add_edges (snapshot va n0 dir name gen el acc m) [(v1, v2)]) m data =
           Inr (snapshot va n0 dir name gen (el @ [(v1, v2)]) (collect_record acc m data) (Suc m))"
proof -
  let ?g = "add_edges (snapshot va n0 dir name gen el acc m) [(v1, v2)]"
  have e: "eattrs ?g = columns_of acc (Suc m)"
    using columns_of_extend[OF assms(1), of 1] by (simp add: add_edges_def snapshot_def)
  have l: "length (get_edgelist ?g) = Suc m"
    using assms(2) by (simp add: add_edges_def snapshot_def)
  show ?thesis
    unfolding set_edge_items_columns[OF e l] by (simp add: add_edges_def snapshot_def)
qed

subsection \<open>The two loops\<close>

lemma idgen_getitem_length:
  "idgen_getitem gen k = (v, gen') \<Longrightarrow> length gen \<le> length gen' \<and> v < length gen'"
  by (cases "k \<in> set gen") (auto dest: idgen_getitem_old simp: idgen_getitem_new)

lemma loops_agree:
  assumes "acc_ok m acc" "m = length el" "n0 \<le> length gen"
  shows "iterative_loop name efk (snapshot va n0 dir name gen el acc m) gen (length gen) m edges =
           bind (batch_loop efk gen el acc m m edges)
             (\<lambda>(gen', el', acc', m'). Inr (snapshot va n0 dir name gen' el' acc' m'))"
  using assms
proof (induction edges arbitrary: gen el acc m)
  case Nil
  then show ?case by simp
next
  case (Cons edge_data edges)
  show ?case
  proof (cases "getitem edge_data (fst efk)")
    case (Inl e)
    then show ?thesis by simp
  next
    case src: (Inr src_name)
    show ?thesis
    proof (cases "getitem edge_data (snd efk)")
      case (Inl e)
      then show ?thesis using src by (simp split: prod.splits)
    next
      case dst: (Inr dst_name)
      obtain v1 gen1 where g1: "idgen_getitem gen src_name = (v1, gen1)"
        by (cases "idgen_getitem gen src_name")
      obtain v2 gen2 where g2: "idgen_getitem gen1 dst_name = (v2, gen2)"
        by (cases "idgen_getitem gen1 dst_name")
      from idgen_getitem_length[OF g1] Cons.prems(3) have n1: "n0 \<le> length gen1" by simp
      from idgen_getitem_length[OF g2] n1 have n2: "n0 \<le> length gen2" by simp
      have a': "acc_ok (Suc m) (collect_record acc m edge_data)"
        using Cons.prems(1) by (intro collect_record_ok acc_ok_mono[of m acc "Suc m"]) simp_all
      have ih: "iterative_loop name efk
          (snapshot va n0 dir name gen2 (el @ [(v1, v2)]) (collect_record acc m edge_data) (Suc m))
          gen2 (length gen2) (Suc m) edges =
        bind (batch_loop efk gen2 (el @ [(v1, v2)]) (collect_record acc m edge_data) (Suc m) (Suc m) edges)
          (\<lambda>(gen', el', acc', m'). Inr (snapshot va n0 dir name gen' el' acc' m'))"
        using a' Cons.prems(2) n2 by (intro Cons.IH) simp_all
      show ?thesis
        using src dst g1 g2 ih
          new_vertex_snapshot[OF Cons.prems(3) g1, of name va dir el acc m]
          new_vertex_snapshot[OF n1 g2, of name va dir el acc m]
          edge_round_snapshot[OF Cons.prems(1,2), of va n0 dir name gen2 v1 v2 edge_data]
        by simp
    qed
  qed
qed

subsection \<open>What the batch loop keeps\<close>

lemma edges_ok_grow:
  "edges_ok gen el \<Longrightarrow> length gen \<le> length gen' \<Longrightarrow> edges_ok gen' el"
  by (fastforce simp: edges_ok_def)

lemma idgen_getitem_prefix:
  "idgen_getitem gen k = (v, gen') \<Longrightarrow> prefix gen gen' \<and> (distinct gen \<longrightarrow> distinct gen')"
  by (cases "k \<in> set gen") (auto dest: idgen_getitem_old simp: idgen_getitem_new)

lemma batch_loop_keeps:
  assumes "batch_loop efk gen el acc m m edges = Inr (gen', el', acc', m')"
    "acc_ok m acc" "m = length el" "edges_ok gen el"
  shows "acc_ok m' acc' \<and> m' = length el' \<and> edges_ok gen' el' \<and> prefix gen gen' \<and>
         (distinct gen \<longrightarrow> distinct gen')"
  using assms
proof (induction edges arbitrary: gen el acc m)
  case Nil
  then show ?case by auto
next
  case (Cons edge_data edges)
  from Cons.prems(1) obtain src_name where src: "getitem edge_data (fst efk) = Inr src_name"
    by (cases "getitem edge_data (fst efk)") simp_all
  obtain v1 gen1 where g1: "idgen_getitem gen src_name = (v1, gen1)"
    by (cases "idgen_getitem gen src_name")
  from Cons.prems(1) src g1 obtain dst_name where dst: "getitem edge_data (snd efk) = Inr dst_name"
    by (cases "getitem edge_data (snd efk)") simp_all
  obtain v2 gen2 where g2: "idgen_getitem gen1 dst_name = (v2, gen2)"
    by (cases "idgen_getitem gen1 dst_name")
  let ?el = "el @ [(v1, v2)]" and ?acc = "collect_record acc m edge_data"
  from Cons.prems(1) src dst g1 g2 have
    b: "batch_loop efk gen2 ?el ?acc (Suc m) (Suc m) edges = Inr (gen', el', acc', m')"
    by simp
  have "acc_ok (Suc m) acc" using Cons.prems(2) by (rule acc_ok_mono) simp
  then have a: "acc_ok (Suc m) ?acc" by (rule collect_record_ok) simp
  have l: "Suc m = length ?el" using Cons.prems(3) by simp
  from idgen_getitem_length[OF g1] idgen_getitem_length[OF g2]
  have len: "length gen \<le> length gen2" "v1 < length gen2" "v2 < length gen2" by simp_all
  have e: "edges_ok gen2 ?el"
    using edges_ok_grow[OF Cons.prems(4) len(1)] len(2,3) by (simp add: edges_ok_def)
  from idgen_getitem_prefix[OF g1] idgen_getitem_prefix[OF g2]
  have p: "prefix gen gen2" "distinct gen \<longrightarrow> distinct gen2"
    by (auto intro: prefix_order.trans)
  from Cons.IH[OF b a l e] p show ?case
    by (auto intro: prefix_order.trans)
qed

subsection \<open>The keys that become attribute names\<close>

lemma keys_add_item: "fst ` set (add_item acc k iv) = insert k (fst ` set acc)"
  by (cases "map_of acc k") (simp_all add: add_item_def dom_update)

lemma keys_collect_record:
  "fst ` set (collect_record acc idx data) = fst ` set acc \<union> fst ` set data"
  unfolding collect_record_def
proof (induction data arbitrary: acc)
  case Nil then show ?case by simp
next
  case (Cons p data)
  obtain k v where p: "p = (k, v)" by (cases p)
  show ?case unfolding p by (simp add: Cons.IH keys_add_item)
qed

lemma keys_vertex_loop:
  "vertex_loop acc n idx recs = (acc', n') \<Longrightarrow>
   fst ` set acc' = fst ` set acc \<union> (\<Union>r \<in> set recs. fst ` set r)"
proof (induction recs arbitrary: acc n idx)
  case Nil then show ?case by simp
next
  case (Cons r recs)
  from Cons.prems have "vertex_loop (collect_record acc idx r) (n + 1) (Suc idx) recs = (acc', n')"
    by simp
  from Cons.IH[OF this] show ?case by (auto simp: keys_collect_record)
qed

lemma keys_batch_loop:
  "batch_loop efk gen el acc m idx edges = Inr (gen', el', acc', m') \<Longrightarrow>
   fst ` set acc' = fst ` set acc \<union> (\<Union>r \<in> set edges. fst ` set r)"
proof (induction edges arbitrary: gen el acc m idx)
  case Nil then show ?case by simp
next
  case (Cons edge_data edges)
  from Cons.prems obtain src_name where src: "getitem edge_data (fst efk) = Inr src_name"
    by (cases "getitem edge_data (fst efk)") simp_all
  obtain v1 gen1 where g1: "idgen_getitem gen src_name = (v1, gen1)"
    by (cases "idgen_getitem gen src_name")
  from Cons.prems src g1 obtain dst_name where dst: "getitem edge_data (snd efk) = Inr dst_name"
    by (cases "getitem edge_data (snd efk)") simp_all
  obtain v2 gen2 where g2: "idgen_getitem gen1 dst_name = (v2, gen2)"
    by (cases "idgen_getitem gen1 dst_name")
  from Cons.prems src dst g1 g2 have
    "batch_loop efk gen2 (el @ [(v1, v2)]) (collect_record acc idx edge_data) (m + 1) (Suc idx) edges
       = Inr (gen', el', acc', m')"
    by simp
  from Cons.IH[OF this] show ?case by (auto simp: keys_collect_record)
qed

lemma str_keyed_keys: "str_keyed d \<longleftrightarrow> (\<forall>k \<in> fst ` set d. is_str_key k)"
  by (auto simp: str_keyed_def list_all_iff)

lemma str_keyed_columns_of [simp]: "str_keyed (columns_of acc n) = str_keyed acc"
  by (simp add: str_keyed_keys columns_of_def image_image case_prod_unfold)

lemma str_keyed_extend_columns [simp]: "str_keyed (extend_columns k cols) = str_keyed cols"
  by (simp add: str_keyed_keys extend_columns_def image_image case_prod_unfold)

lemma str_keyed_update:
  "is_str_key k \<Longrightarrow> str_keyed cols \<Longrightarrow> str_keyed (AList.update k v cols)"
  by (simp add: str_keyed_keys dom_update)

subsection \<open>The vertex columns\<close>

lemma is_dict_columns_of [simp]: "is_dict (columns_of acc n) = is_dict acc"
  by (simp add: is_dict_def)

lemma construct_vertices_Some:
  "vertex_loop [] 0 0 (r # rs) = (acc, n) \<Longrightarrow>
   construct_vertices (Some (r # rs)) name = bind (materialize acc n) (\<lambda>cols. Inr (cols, n))"
  unfolding construct_vertices_def by (simp del: vertex_loop.simps)

lemma construct_vertices_columns:
  assumes "construct_vertices vertices name = Inr (va, n0)"
  shows "is_dict va \<and> (\<forall>(k, c) \<in> set va. length c = n0)"
proof (cases "\<exists>r rs. vertices = Some (r # rs)")
  case True
  then obtain r rs where v: "vertices = Some (r # rs)" by blast
  obtain acc n where vl: "vertex_loop [] 0 0 (r # rs) = (acc, n)"
    by (cases "vertex_loop [] 0 0 (r # rs)")
  have "acc_ok 0 []" by simp
  from vertex_loop_ok[OF vl this] have ok: "acc_ok n acc" by simp
  have "construct_vertices vertices name = Inr (columns_of acc n, n)"
    unfolding v construct_vertices_Some[OF vl] materialize_ok[OF ok] by simp
  with assms have e: "va = columns_of acc n" "n0 = n" by auto
  have "is_dict va" using ok unfolding e by (simp add: acc_ok_def)
  moreover have "\<forall>(k, c) \<in> set va. length c = n0"
    unfolding e using columns_of_lengths by fast
  ultimately show ?thesis by simp
next
  case False
  then have "construct_vertices vertices name = Inr ([(name, [])], 0)"
    by (auto simp: construct_vertices_def split: option.splits list.splits)
  with assms show ?thesis by (auto simp: is_dict_def)
qed

lemma construct_vertices_str_keyed:
  assumes "construct_vertices vertices name = Inr (va, n0)" "is_str_key name"
    "\<forall>r \<in> set (vertex_records vertices). str_keyed r"
  shows "str_keyed va"
proof (cases "\<exists>r rs. vertices = Some (r # rs)")
  case True
  then obtain r rs where v: "vertices = Some (r # rs)" by blast
  obtain acc n where vl: "vertex_loop [] 0 0 (r # rs) = (acc, n)"
    by (cases "vertex_loop [] 0 0 (r # rs)")
  have "acc_ok 0 []" by simp
  from vertex_loop_ok[OF vl this] have ok: "acc_ok n acc" by simp
  have "construct_vertices vertices name = Inr (columns_of acc n, n)"
    unfolding v construct_vertices_Some[OF vl] materialize_ok[OF ok] by simp
  with assms(1) have e: "va = columns_of acc n" by auto
  from keys_vertex_loop[OF vl] have "fst ` set acc = (\<Union>r \<in> set (r # rs). fst ` set r)" by simp
  moreover have "\<forall>q \<in> set (r # rs). str_keyed q"
    using assms(3) by (simp add: v vertex_records_def)
  ultimately have "str_keyed acc" unfolding str_keyed_keys by blast
  then show ?thesis by (simp add: e)
next
  case False
  then have "construct_vertices vertices name = Inr ([(name, [])], 0)"
    by (auto simp: construct_vertices_def split: option.splits list.splits)
  with assms(1,2) show ?thesis by (auto simp: str_keyed_def)
qed

lemma getitem_Inr: "getitem d k = Inr v \<longleftrightarrow> map_of d k = Some v"
  by (simp add: getitem_def split: option.splits)

subsection \<open>Both branches build the same graph\<close>

lemma snapshot_initial:
  assumes "map_of va name = Some names" "length names = n0"
  shows "snapshot va n0 dir name names [] [] 0 =
           \<lparr> vcount = n0, directed = dir, get_edgelist = [], gattrs = [],
             vattrs = va, eattrs = [] \<rparr>"
  using assms by (simp add: snapshot_def update_triv columns_of_def)

lemma extend_columns_lengths:
  "\<forall>(k, c) \<in> set cols. length c = n \<Longrightarrow> (k, c) \<in> set (extend_columns d cols) \<Longrightarrow>
   length c = n + d"
  by (induction cols) (auto simp: extend_columns_def)

lemma snapshot_columns:
  assumes "is_dict va" "\<forall>(k, c) \<in> set va. length c = n0" "n0 \<le> length gen"
  shows "is_dict (vattrs (snapshot va n0 dir name gen el acc m)) \<and>
         (\<forall>(k, c) \<in> set (vattrs (snapshot va n0 dir name gen el acc m)). length c = length gen)"
proof -
  let ?cols = "AList.update name gen (extend_columns (length gen - n0) va)"
  have v: "vattrs (snapshot va n0 dir name gen el acc m) = ?cols" by (simp add: snapshot_def)
  have d: "is_dict ?cols"
    using assms(1) by (simp add: is_dict_def distinct_update)
  have l: "length c = length gen" if "(k, c) \<in> set ?cols" for k c
  proof -
    from set_update_subset[OF that] consider "c = gen"
      | "(k, c) \<in> set (extend_columns (length gen - n0) va)" by blast
    then show ?thesis
    proof cases
      case 1 then show ?thesis by simp
    next
      case 2
      from extend_columns_lengths[OF assms(2) 2] assms(3) show ?thesis by simp
    qed
  qed
  from d l show ?thesis unfolding v by fast
qed

lemma batch_finish:
  assumes va: "is_dict va" "\<forall>(k, c) \<in> set va. length c = n0" "map_of va name = Some names"
    and r: "acc_ok m' acc'" "m' = length el'" "edges_ok gen' el'" "prefix names gen'"
    and k: "str_keyed va" "is_str_key name" "str_keyed acc'"
  shows "bind (materialize acc' m') (\<lambda>edge_attrs.
           case (if length gen' > n0
                 then (AList.update name gen' (extend_columns (length gen' - n0) va), length gen')
                 else (va, n0)) of
             (vertex_attrs', n') \<Rightarrow> Graph_init n' el' dir [] vertex_attrs' edge_attrs)
         = Inr (snapshot va n0 dir name gen' el' acc' m')"
proof -
  from va(3) have "(name, names) \<in> set va" by (rule map_of_SomeD)
  with va(2) have ln: "length names = n0" by auto
  with r(4) have le: "n0 \<le> length gen'" by (auto simp: prefix_def)
  have same: "(if length gen' > n0
                 then (AList.update name gen' (extend_columns (length gen' - n0) va), length gen')
                 else (va, n0)) =
      (vattrs (snapshot va n0 dir name gen' el' acc' m'), length gen')"
  proof (cases "length gen' > n0")
    case True then show ?thesis by (simp add: snapshot_def)
  next
    case False
    from r(4) obtain ext where ext: "gen' = names @ ext" by (auto simp: prefix_def)
    with False ln have "ext = []" by simp
    with ext have "gen' = names" by simp
    then show ?thesis using False ln va(3) by (simp add: snapshot_def update_triv)
  qed
  have g: "Graph_init (length gen') el' dir [] (vattrs (snapshot va n0 dir name gen' el' acc' m'))
        (columns_of acc' m') =
      Inr \<lparr> vcount = length gen', directed = dir, get_edgelist = el', gattrs = [],
            vattrs = vattrs (snapshot va n0 dir name gen' el' acc' m'),
            eattrs = columns_of acc' m' \<rparr>"
  proof (rule Graph_init_ok)
    show "\<forall>(a, b) \<in> set el'. a < length gen' \<and> b < length gen'"
      using r(3) by (simp add: edges_ok_def)
    show "is_dict (vattrs (snapshot va n0 dir name gen' el' acc' m'))"
      using snapshot_columns[OF va(1,2) le] by blast
    show "\<forall>(k, c) \<in> set (vattrs (snapshot va n0 dir name gen' el' acc' m')). length c = length gen'"
      using snapshot_columns[OF va(1,2) le] by blast
    show "is_dict (columns_of acc' m')" using r(1) by (simp add: acc_ok_def)
    show "\<forall>(k, c) \<in> set (columns_of acc' m'). length c = length el'"
      using r(2) by (auto dest: columns_of_lengths)
    show "str_keyed (vattrs (snapshot va n0 dir name gen' el' acc' m'))"
      using k(1,2) by (simp add: snapshot_def str_keyed_update)
    show "str_keyed (columns_of acc' m')" using k(3) by simp
  qed
  have s: "\<lparr> vcount = length gen', directed = dir, get_edgelist = el', gattrs = [],
            vattrs = vattrs (snapshot va n0 dir name gen' el' acc' m'),
            eattrs = columns_of acc' m' \<rparr> = snapshot va n0 dir name gen' el' acc' m'"
    by (simp add: snapshot_def)
  show ?thesis
    unfolding materialize_ok[OF r(1)] bind_Inr same prod.case g s ..
qed

text \<open>
  \<open>DictList\<close> in either mode: the vertex columns, the uniqueness check, and the graph
  of the state in which the batch loop ends.
\<close>

lemma DictList_unfold:
  assumes "is_str_key name" "\<forall>r \<in> set (vertex_records vertices). str_keyed r"
    "\<forall>r \<in> set edges. str_keyed r"
  shows "DictList vertices edges dir name efk iterative =
     bind (construct_vertices vertices name) (\<lambda>(va, n0).
     bind (getitem va name) (\<lambda>names.
       if length names \<noteq> card (set names)
       then Inl (ValueError ''vertex names are not unique'')
       else bind (batch_loop efk names [] [] 0 0 edges)
              (\<lambda>(gen', el', acc', m'). Inr (snapshot va n0 dir name gen' el' acc' m'))))"
proof (cases "construct_vertices vertices name")
  case (Inl e)
  then show ?thesis by (simp add: DictList_def)
next
  case (Inr p)
  obtain va n0 where p: "p = (va, n0)" by (cases p)
  note cv = Inr[unfolded p]
  from construct_vertices_columns[OF cv] have va: "is_dict va" "\<forall>(k, c) \<in> set va. length c = n0"
    by simp_all
  have sk: "str_keyed va" using cv assms(1,2) by (rule construct_vertices_str_keyed)
  show ?thesis
  proof (cases "getitem va name")
    case (Inl e)
    then show ?thesis using cv by (simp add: DictList_def)
  next
    case names: (Inr names)
    then have mo: "map_of va name = Some names" by (simp add: getitem_Inr)
    then have "(name, names) \<in> set va" by (rule map_of_SomeD)
    with va(2) have ln: "length names = n0" by auto
    show ?thesis
    proof (cases "length names \<noteq> card (set names)")
      case True
      then show ?thesis using cv names by (simp add: DictList_def)
    next
      case False
      then have d: "distinct names" by (simp add: card_distinct)
      then have gi: "idgen_init names = names" by (rule idgen_init_id)
      have rhs: "bind (construct_vertices vertices name) (\<lambda>(va, n0).
         bind (getitem va name) (\<lambda>names.
           if length names \<noteq> card (set names)
           then Inl (ValueError ''vertex names are not unique'')
           else bind (batch_loop efk names [] [] 0 0 edges)
              (\<lambda>(gen', el', acc', m'). Inr (snapshot va n0 dir name gen' el' acc' m')))) =
         bind (batch_loop efk names [] [] 0 0 edges)
              (\<lambda>(gen', el', acc', m'). Inr (snapshot va n0 dir name gen' el' acc' m'))"
        using cv names False by simp
      show ?thesis
      proof (cases iterative)
        case True
        have gi0: "Graph_init n0 [] dir [] va [] = Inr (snapshot va n0 dir name names [] [] 0)"
          unfolding snapshot_initial[OF mo ln]
          using va sk by (intro Graph_init_ok) (simp_all add: is_dict_def str_keyed_def)
        have "iterative_loop name efk (snapshot va n0 dir name names [] [] 0) names n0 0 edges =
            bind (batch_loop efk names [] [] 0 0 edges)
              (\<lambda>(gen', el', acc', m'). Inr (snapshot va n0 dir name gen' el' acc' m'))"
          using loops_agree[of 0 "[]" "[]" n0 names name efk va dir edges] ln by simp
        then show ?thesis
          unfolding rhs using cv names False True gi gi0 by (simp add: DictList_def)
      next
        case batch: False
        have "bind (batch_loop efk names [] [] 0 0 edges)
             (\<lambda>(vertex_name_map', edge_list, edge_attrs0, m).
                bind (materialize edge_attrs0 m) (\<lambda>edge_attrs.
                  case (if length vertex_name_map' > n0
                        then (AList.update name vertex_name_map'
                                (extend_columns (length vertex_name_map' - n0) va),
                              length vertex_name_map')
                        else (va, n0)) of
                    (vertex_attrs', n') \<Rightarrow>
                      Graph_init n' edge_list dir [] vertex_attrs' edge_attrs)) =
            bind (batch_loop efk names [] [] 0 0 edges)
              (\<lambda>(gen', el', acc', m'). Inr (snapshot va n0 dir name gen' el' acc' m'))"
        proof (cases "batch_loop efk names [] [] 0 0 edges")
          case (Inl e)
          then show ?thesis by simp
        next
          case (Inr q)
          obtain gen' el' acc' m' where q: "q = (gen', el', acc', m')" by (cases q)
          have "acc_ok 0 []" "0 = length ([] :: (nat \<times> nat) list)" "edges_ok names []"
            by (simp_all add: edges_ok_def)
          from batch_loop_keeps[OF Inr[unfolded q] this]
          have k: "acc_ok m' acc'" "m' = length el'" "edges_ok gen' el'" "prefix names gen'"
            by blast+
          from keys_batch_loop[OF Inr[unfolded q]] assms(3) have ska: "str_keyed acc'"
            unfolding str_keyed_keys by auto
          show ?thesis
            unfolding Inr q using batch_finish[OF va mo k sk assms(1) ska, of dir] by simp
        qed
        then show ?thesis
          unfolding rhs using cv names False batch gi by (simp add: DictList_def)
      qed
    qed
  qed
qed

text \<open>
  On records whose keys are strings, with a string for the name key, the two modes
  return the same result: the same graph or the same error.
\<close>

lemma DictList_modes_agree_on_string_keys:
  assumes "is_str_key vertex_name_attr" "\<forall>r \<in> set (vertex_records vertices). str_keyed r"
    "\<forall>r \<in> set edges. str_keyed r"
  shows "DictList vertices edges dir vertex_name_attr edge_foreign_keys False =
         DictList vertices edges dir vertex_name_attr edge_foreign_keys True"
  by (simp add: DictList_unfold[OF assms])

text \<open>
  Claim C1. The two modes of \<open>DictList\<close> are to return graphs with the same vertex
  count, vertex order, edge list and attribute columns. On the edge record
  \<^verbatim>\<open>{"source": "a", "target": "b", 1: "w"}\<close> they do not: the batch branch hands its
  edge columns to \<open>Graph.__init__\<close>, which turns the integer key into the attribute
  name \<open>"1"\<close>, and the iterative branch writes \<open>g.es[idx][k] = v\<close> with the integer
  itself. The vertex count, the name column and the edge list are the same.
\<close>

theorem DictList_modes_differ_on_integer_key:
  "DictList None a_b_1 False (KStr ''name'') (KStr ''source'', KStr ''target'') False =
     Inr \<lparr> vcount = 2, directed = False, get_edgelist = [(0, 1)], gattrs = [],
           vattrs = [(KStr ''name'', [PyStr ''a'', PyStr ''b''])],
           eattrs = [(KStr ''source'', [PyStr ''a'']), (KStr ''target'', [PyStr ''b'']),
                     (KStr ''1'', [PyStr ''w''])] \<rparr> \<and>
   DictList None a_b_1 False (KStr ''name'') (KStr ''source'', KStr ''target'') True =
     Inr \<lparr> vcount = 2, directed = False, get_edgelist = [(0, 1)], gattrs = [],
           vattrs = [(KStr ''name'', [PyStr ''a'', PyStr ''b''])],
           eattrs = [(KStr ''source'', [PyStr ''a'']), (KStr ''target'', [PyStr ''b'']),
                     (KInt 1, [PyStr ''w''])] \<rparr> \<and>
   DictList None a_b_1 False (KStr ''name'') (KStr ''source'', KStr ''target'') False \<noteq>
   DictList None a_b_1 False (KStr ''name'') (KStr ''source'', KStr ''target'') True"
proof -
  have b: "DictList None a_b_1 False (KStr ''name'') (KStr ''source'', KStr ''target'') False =
     Inr \<lparr> vcount = 2, directed = False, get_edgelist = [(0, 1)], gattrs = [],
           vattrs = [(KStr ''name'', [PyStr ''a'', PyStr ''b''])],
           eattrs = [(KStr ''source'', [PyStr ''a'']), (KStr ''target'', [PyStr ''b'']),
                     (KStr ''1'', [PyStr ''w''])] \<rparr>"
    by code_simp
  have i: "DictList None a_b_1 False (KStr ''name'') (KStr ''source'', KStr ''target'') True =
     Inr \<lparr> vcount = 2, directed = False, get_edgelist = [(0, 1)], gattrs = [],
           vattrs = [(KStr ''name'', [PyStr ''a'', PyStr ''b''])],
           eattrs = [(KStr ''source'', [PyStr ''a'']), (KStr ''target'', [PyStr ''b'']),
                     (KInt 1, [PyStr ''w''])] \<rparr>"
    by code_simp
  show ?thesis unfolding b i by simp
qed

end
